theory Spec2Isabelle
  imports Main "HOL-Library.Word"
begin

section \<open>Strings of the source language\<close>

text \<open>
  A TypeScript string is a sequence of UTF-16 code units; \<open>length\<close>, indexing,
  \<open>slice\<close>, \<open>===\<close> on characters and the regular expressions of the source (none of
  them has the \<open>u\<close> flag) all work on code units. A string is therefore a list of 16-bit
  words. \<open>js\<close> turns an ASCII literal into such a string.
\<close>

type_synonym code_unit = "16 word"
type_synonym jsstring = "code_unit list"

definition js :: "string \<Rightarrow> jsstring" where
  "js s = map of_char s"

definition NL :: code_unit where
  "NL = 10"

text \<open>
  The code units that \<open>String.prototype.trim\<close> strips and that \<open>\s\<close> matches: the
  WhiteSpace and LineTerminator productions of ECMAScript.
\<close>

definition isWhiteSpace :: "code_unit \<Rightarrow> bool" where
  "isWhiteSpace c \<longleftrightarrow>
     c = 9 \<or> c = 10 \<or> c = 11 \<or> c = 12 \<or> c = 13 \<or> c = 32 \<or> c = 160 \<or> c = 5760 \<or>
     (8192 \<le> c \<and> c \<le> 8202) \<or> c = 8232 \<or> c = 8233 \<or> c = 8239 \<or> c = 8287 \<or>
     c = 12288 \<or> c = 65279"

text \<open>The code units that \<open>.\<close> does not match (no \<open>s\<close> flag): the line terminators.\<close>

definition isLineTerminator :: "code_unit \<Rightarrow> bool" where
  "isLineTerminator c \<longleftrightarrow> c = 10 \<or> c = 13 \<or> c = 8232 \<or> c = 8233"

definition isDigit :: "code_unit \<Rightarrow> bool" where
  "isDigit c \<longleftrightarrow> 48 \<le> c \<and> c \<le> 57"

definition trimStart :: "jsstring \<Rightarrow> jsstring" where
  "trimStart s = dropWhile isWhiteSpace s"

definition trimEnd :: "jsstring \<Rightarrow> jsstring" where
  "trimEnd s = rev (dropWhile isWhiteSpace (rev s))"

definition trim :: "jsstring \<Rightarrow> jsstring" where
  "trim s = trimEnd (trimStart s)"

text \<open>\<open>s.slice(a, b)\<close> and \<open>s.slice(a)\<close> for indices that are not negative.\<close>

definition slice :: "jsstring \<Rightarrow> nat \<Rightarrow> nat \<Rightarrow> jsstring" where
  "slice s a b = drop a (take b s)"

definition sliceFrom :: "jsstring \<Rightarrow> nat \<Rightarrow> jsstring" where
  "sliceFrom s a = drop a s"

definition startsWith :: "jsstring \<Rightarrow> jsstring \<Rightarrow> bool" where
  "startsWith s p \<longleftrightarrow> take (length p) s = p"

definition endsWith :: "jsstring \<Rightarrow> jsstring \<Rightarrow> bool" where
  "endsWith s p \<longleftrightarrow> length p \<le> length s \<and> drop (length s - length p) s = p"

text \<open>\<open>s.split('\n')\<close>: always at least one line; the separators are dropped.\<close>

fun splitLines :: "jsstring \<Rightarrow> jsstring list" where
  "splitLines [] = [[]]"
| "splitLines (c # cs) =
     (if c = NL then [] # splitLines cs
      else (case splitLines cs of l # ls \<Rightarrow> (c # l) # ls | [] \<Rightarrow> [[c]]))"

section \<open>The diff annotator: \<open>markAiAdditions\<close>\<close>

text \<open>The loop that advances \<open>prefixEnd\<close> while both texts agree.\<close>

function prefixLoop :: "jsstring \<Rightarrow> jsstring \<Rightarrow> nat \<Rightarrow> nat \<Rightarrow> nat" where
  "prefixLoop oldContent newContent minLen prefixEnd =
     (if prefixEnd < minLen \<and> oldContent ! prefixEnd = newContent ! prefixEnd
      then prefixLoop oldContent newContent minLen (prefixEnd + 1)
      else prefixEnd)"
  by pat_completeness auto
termination
  by (relation "measure (\<lambda>(oldContent, newContent, minLen, prefixEnd). minLen - prefixEnd)") auto

text \<open>
  The loop that moves \<open>oldSuffixStart\<close> and \<open>newSuffixStart\<close> towards the front; neither
  crosses \<open>prefixEnd\<close>.
\<close>

function suffixLoop :: "jsstring \<Rightarrow> jsstring \<Rightarrow> nat \<Rightarrow> nat \<Rightarrow> nat \<Rightarrow> nat \<times> nat" where
  "suffixLoop oldContent newContent prefixEnd oldSuffixStart newSuffixStart =
     (if oldSuffixStart > prefixEnd \<and> newSuffixStart > prefixEnd \<and>
         oldContent ! (oldSuffixStart - 1) = newContent ! (newSuffixStart - 1)
      then suffixLoop oldContent newContent prefixEnd (oldSuffixStart - 1) (newSuffixStart - 1)
      else (oldSuffixStart, newSuffixStart))"
  by pat_completeness auto
termination
  by (relation "measure (\<lambda>(oldContent, newContent, prefixEnd, oldSuffixStart, newSuffixStart).
        oldSuffixStart)") auto

definition prefixEndOf :: "jsstring \<Rightarrow> jsstring \<Rightarrow> nat" where
  "prefixEndOf oldContent newContent =
     prefixLoop oldContent newContent (min (length oldContent) (length newContent)) 0"

definition suffixStartsOf :: "jsstring \<Rightarrow> jsstring \<Rightarrow> nat \<times> nat" where
  "suffixStartsOf oldContent newContent =
     suffixLoop oldContent newContent (prefixEndOf oldContent newContent)
       (length oldContent) (length newContent)"

text \<open>The three parts that \<open>markAiAdditions\<close> extracts from the new text.\<close>

definition prefixOf :: "jsstring \<Rightarrow> jsstring \<Rightarrow> jsstring" where
  "prefixOf oldContent newContent = slice newContent 0 (prefixEndOf oldContent newContent)"

definition addedContentOf :: "jsstring \<Rightarrow> jsstring \<Rightarrow> jsstring" where
  "addedContentOf oldContent newContent =
     slice newContent (prefixEndOf oldContent newContent)
       (snd (suffixStartsOf oldContent newContent))"

definition suffixOf :: "jsstring \<Rightarrow> jsstring \<Rightarrow> jsstring" where
  "suffixOf oldContent newContent =
     sliceFrom newContent (snd (suffixStartsOf oldContent newContent))"

definition cleanPrefixOf :: "jsstring \<Rightarrow> jsstring" where
  "cleanPrefixOf prefix =
     (if endsWith prefix [NL] then prefix else (if prefix \<noteq> [] then prefix @ [NL] else []))"

definition cleanSuffixOf :: "jsstring \<Rightarrow> jsstring" where
  "cleanSuffixOf suffix =
     (if startsWith suffix [NL] then suffix else (if suffix \<noteq> [] then NL # suffix else []))"

text \<open>
  \<open>.replace(/\n{3,}/g, '\n\n')\<close>: scanning from the left, a maximal run of three or more
  newlines is replaced by two; every other code unit is copied.
\<close>

function collapseNewlines :: "jsstring \<Rightarrow> jsstring" where
  "collapseNewlines [] = []"
| "collapseNewlines (c # cs) =
     (if c = NL \<and> 2 \<le> length (takeWhile (\<lambda>x. x = NL) cs)
      then NL # NL # collapseNewlines (dropWhile (\<lambda>x. x = NL) cs)
      else c # collapseNewlines cs)"
  by pat_completeness auto
termination
  by (relation "measure length") (auto simp: less_Suc_eq_le length_dropWhile_le)

definition wrapAdded :: "jsstring \<Rightarrow> jsstring \<Rightarrow> jsstring \<Rightarrow> jsstring" where
  "wrapAdded cleanPrefix cleanAdded cleanSuffix =
     cleanPrefix @ js ''\<newline>:::ai\<newline>'' @ cleanAdded @ js ''\<newline>:::\<newline>'' @ cleanSuffix"

definition markAiAdditions :: "jsstring \<Rightarrow> jsstring \<Rightarrow> jsstring" where
  "markAiAdditions oldContent newContent =
     (if trim oldContent = [] then newContent
      else
        let prefix = prefixOf oldContent newContent;
            addedContent = addedContentOf oldContent newContent;
            suffix = suffixOf oldContent newContent
        in if trim addedContent \<noteq> []
           then collapseNewlines
                  (wrapAdded (cleanPrefixOf prefix) (trim addedContent) (cleanSuffixOf suffix))
           else newContent)"

section \<open>The markdown renderer of the note editor\<close>

text \<open>
  What the components return: React elements. An element has a tag and children; a
  child is an element or a string. Class names and keys are left out (the key of a
  node is a counter that is incremented at every push).
\<close>

datatype tag = Span | Strong | Em | Code | Ul | Ol | Li | H1 | H2 | H3 | Blockquote | Hr | Para
  | DivAi | DivProse

datatype node = Text jsstring | Elem tag "node list"

subsection \<open>\<open>InlineMarkdown\<close>\<close>

text \<open>
  The three regular expressions have the shape \<open>open(.+?)close\<close> with literal
  delimiters. \<open>lazyUntil\<close> is the lazy group followed by the closing delimiter: the
  group, already one code unit long at least, grows one code unit at a time until the
  closing delimiter follows; it cannot grow over a line terminator.
\<close>

fun lazyUntil :: "jsstring \<Rightarrow> jsstring \<Rightarrow> jsstring \<Rightarrow> jsstring option" where
  "lazyUntil close acc [] = (if startsWith [] close then Some acc else None)"
| "lazyUntil close acc (c # cs) =
     (if startsWith (c # cs) close then Some acc
      else if isLineTerminator c then None
      else lazyUntil close (acc @ [c]) cs)"

definition matchAt :: "jsstring \<Rightarrow> jsstring \<Rightarrow> jsstring \<Rightarrow> jsstring option" where
  "matchAt opn close s =
     (if startsWith s opn
      then (case drop (length opn) s of
              [] \<Rightarrow> None
            | c # cs \<Rightarrow> if isLineTerminator c then None else lazyUntil close [c] cs)
      else None)"

record regexMatch =
  index :: nat
  whole :: jsstring
  group1 :: jsstring

text \<open>\<open>s.match(re)\<close> without the \<open>g\<close> flag: the match at the leftmost start that has one.\<close>

fun searchFrom :: "jsstring \<Rightarrow> jsstring \<Rightarrow> nat \<Rightarrow> jsstring \<Rightarrow> regexMatch option" where
  "searchFrom opn close i [] =
     (case matchAt opn close [] of
        Some g \<Rightarrow> Some \<lparr>index = i, whole = opn @ g @ close, group1 = g\<rparr>
      | None \<Rightarrow> None)"
| "searchFrom opn close i (c # cs) =
     (case matchAt opn close (c # cs) of
        Some g \<Rightarrow> Some \<lparr>index = i, whole = opn @ g @ close, group1 = g\<rparr>
      | None \<Rightarrow> searchFrom opn close (i + 1) cs)"

definition boldMatch :: "jsstring \<Rightarrow> regexMatch option" where
  "boldMatch remaining = searchFrom (js ''**'') (js ''**'') 0 remaining"

definition italicMatch :: "jsstring \<Rightarrow> regexMatch option" where
  "italicMatch remaining = searchFrom (js ''*'') (js ''*'') 0 remaining"

definition codeMatch :: "jsstring \<Rightarrow> regexMatch option" where
  "codeMatch remaining = searchFrom (js ''`'') (js ''`'') 0 remaining"

datatype matchType = bold | italic | code

text \<open>
  The array \<open>matches\<close>: the matches that exist, in the order bold, italic, code, sorted
  by index (\<open>Array.prototype.sort\<close> is stable, as \<open>sort_key\<close> is).
\<close>

definition candidate :: "matchType \<Rightarrow> regexMatch option \<Rightarrow> (matchType \<times> regexMatch) list" where
  "candidate ty m = (case m of None \<Rightarrow> [] | Some r \<Rightarrow> [(ty, r)])"

definition matchesOf :: "jsstring \<Rightarrow> (matchType \<times> regexMatch) list" where
  "matchesOf remaining =
     sort_key (\<lambda>x. index (snd x))
       (candidate bold (boldMatch remaining) @ candidate italic (italicMatch remaining) @
        candidate code (codeMatch remaining))"

definition styled :: "matchType \<Rightarrow> jsstring \<Rightarrow> node" where
  "styled ty content =
     (case ty of bold \<Rightarrow> Elem Strong [Text content]
               | italic \<Rightarrow> Elem Em [Text content]
               | code \<Rightarrow> Elem Code [Text content])"

lemma searchFrom_whole:
  "searchFrom opn close i s = Some m \<Longrightarrow> whole m = opn @ group1 m @ close"
  by (induction opn close i s rule: searchFrom.induct) (auto split: option.splits)

lemma matchesOf_cases:
  "(ty, m) \<in> set (matchesOf remaining) \<longleftrightarrow>
     ty = bold \<and> boldMatch remaining = Some m \<or>
     ty = italic \<and> italicMatch remaining = Some m \<or>
     ty = code \<and> codeMatch remaining = Some m"
  by (auto simp: matchesOf_def candidate_def split: option.splits)

lemma matchesOf_whole:
  assumes "matchesOf remaining = (ty, m) # ms"
  shows "0 < length (whole m)"
proof -
  from assms have "(ty, m) \<in> set (matchesOf remaining)" by simp
  then have "boldMatch remaining = Some m \<or> italicMatch remaining = Some m \<or>
      codeMatch remaining = Some m"
    by (auto simp: matchesOf_cases)
  then show ?thesis
    by (auto simp: boldMatch_def italicMatch_def codeMatch_def js_def dest: searchFrom_whole)
qed

function inlineLoop :: "jsstring \<Rightarrow> node list \<Rightarrow> node list" where
  "inlineLoop remaining parts =
     (if length remaining > 0
      then (case matchesOf remaining of
              [] \<Rightarrow> parts @ [Elem Span [Text remaining]]
            | (ty, m) # _ \<Rightarrow>
                inlineLoop (sliceFrom remaining (index m + length (whole m)))
                  ((if index m > 0 then parts @ [Elem Span [Text (slice remaining 0 (index m))]]
                    else parts) @ [styled ty (group1 m)]))
      else parts)"
  by pat_completeness auto
termination
  by (relation "measure (\<lambda>(remaining, parts). length remaining)")
     (auto simp: sliceFrom_def dest: matchesOf_whole)

declare inlineLoop.simps [simp del]

definition InlineMarkdown :: "jsstring \<Rightarrow> node list" where
  "InlineMarkdown text = inlineLoop text []"

subsection \<open>\<open>renderLines\<close>: the block parser\<close>

datatype listType = bullet_list | numbered_list

text \<open>
  The local state of \<open>renderLines\<close>: the open list, if any (\<open>listItems\<close>), and the
  elements pushed so far (\<open>localElements\<close>).
\<close>

type_synonym listItems = "(listType \<times> jsstring list) option"
type_synonym renderState = "listItems \<times> node list"

text \<open>
  \<open>pushElement\<close>: inside an AI block the node goes into its own highlighted \<open>div\<close>;
  outside, an element is pushed as it is and anything else inside a \<open>span\<close>.
\<close>

definition pushElement :: "bool \<Rightarrow> node \<Rightarrow> node list \<Rightarrow> node list" where
  "pushElement wrapAi n localElements =
     (if wrapAi then localElements @ [Elem DivAi [n]]
      else (case n of Elem t children \<Rightarrow> localElements @ [n]
                    | Text s \<Rightarrow> localElements @ [Elem Span [n]]))"

definition listNode :: "listType \<Rightarrow> jsstring list \<Rightarrow> node" where
  "listNode ty items =
     Elem (case ty of bullet_list \<Rightarrow> Ul | numbered_list \<Rightarrow> Ol)
       (map (\<lambda>item. Elem Li (InlineMarkdown item)) items)"

definition flushList :: "bool \<Rightarrow> renderState \<Rightarrow> renderState" where
  "flushList wrapAi st =
     (case fst st of
        None \<Rightarrow> st
      | Some (ty, items) \<Rightarrow> (None, pushElement wrapAi (listNode ty items) (snd st)))"

text \<open>
  \<open>trimmed.match(/^\d+\.\s+(.*)/)\<close>: digits, a dot, white space, and the rest of the
  line up to a line terminator as the group. Every quantifier is greedy, and none has
  to give anything back: after all the digits only a dot can follow, and the group may
  be empty.
\<close>

definition numberedMatch :: "jsstring \<Rightarrow> jsstring option" where
  "numberedMatch trimmed =
     (if takeWhile isDigit trimmed = [] then None
      else (case dropWhile isDigit trimmed of
              [] \<Rightarrow> None
            | c # rest \<Rightarrow>
                if c \<noteq> 46 then None
                else if takeWhile isWhiteSpace rest = [] then None
                else Some (takeWhile (\<lambda>x. \<not> isLineTerminator x)
                             (dropWhile isWhiteSpace rest))))"

text \<open>Adding an item to the open list of type \<open>ty\<close>, after closing a list of the other type.\<close>

definition addItem :: "bool \<Rightarrow> listType \<Rightarrow> jsstring \<Rightarrow> renderState \<Rightarrow> renderState" where
  "addItem wrapAi ty item st =
     (case fst st of
        Some (ty', items) \<Rightarrow>
          if ty' \<noteq> ty then (Some (ty, [item]), snd (flushList wrapAi st))
          else (Some (ty, items @ [item]), snd st)
      | None \<Rightarrow> (Some (ty, [item]), snd (flushList wrapAi st)))"

text \<open>What a line that is no list item pushes, if anything.\<close>

definition blockNode :: "jsstring \<Rightarrow> node option" where
  "blockNode trimmed =
     (if trimmed = [] then None
      else if startsWith trimmed (js ''### '')
        then Some (Elem H3 (InlineMarkdown (sliceFrom trimmed 4)))
      else if startsWith trimmed (js ''## '')
        then Some (Elem H2 (InlineMarkdown (sliceFrom trimmed 3)))
      else if startsWith trimmed (js ''# '')
        then Some (Elem H1 (InlineMarkdown (sliceFrom trimmed 2)))
      else if startsWith trimmed (js ''> '')
        then Some (Elem Blockquote (InlineMarkdown (sliceFrom trimmed 2)))
      else if startsWith trimmed (js ''---'') \<or> startsWith trimmed (js ''***'')
        then Some (Elem Hr [])
      else Some (Elem Para (InlineMarkdown trimmed)))"

text \<open>One turn of the loop over \<open>targetLines\<close>.\<close>

definition renderLine :: "bool \<Rightarrow> renderState \<Rightarrow> jsstring \<Rightarrow> renderState" where
  "renderLine wrapAi st line =
     (let trimmed = trim line in
      if startsWith trimmed (js ''- '') \<or> startsWith trimmed (js ''* '')
      then addItem wrapAi bullet_list (sliceFrom trimmed 2) st
      else (case numberedMatch trimmed of
              Some item \<Rightarrow> addItem wrapAi numbered_list item st
            | None \<Rightarrow>
                (let st' = flushList wrapAi st in
                 case blockNode trimmed of
                   None \<Rightarrow> st'
                 | Some n \<Rightarrow> (fst st', pushElement wrapAi n (snd st')))))"

definition renderLines :: "jsstring list \<Rightarrow> bool \<Rightarrow> node list" where
  "renderLines targetLines wrapAi =
     snd (flushList wrapAi (foldl (renderLine wrapAi) (None, []) targetLines))"

subsection \<open>\<open>MarkdownPreview\<close>: the blocks of AI-added text\<close>

record previewState =
  inAiBlock :: bool
  normalBuffer :: "jsstring list"
  aiBuffer :: "jsstring list"
  elements :: "node list"

definition flushNormal :: "previewState \<Rightarrow> previewState" where
  "flushNormal st =
     (if length (normalBuffer st) = 0 then st
      else st\<lparr>elements := elements st @ renderLines (normalBuffer st) False,
              normalBuffer := []\<rparr>)"

definition flushAi :: "previewState \<Rightarrow> previewState" where
  "flushAi st =
     (if length (aiBuffer st) = 0 then st
      else st\<lparr>elements := elements st @ renderLines (aiBuffer st) True,
              aiBuffer := []\<rparr>)"

text \<open>One turn of the loop over the lines of the note.\<close>

definition previewLine :: "previewState \<Rightarrow> jsstring \<Rightarrow> previewState" where
  "previewLine st line =
     (let trimmed = trim line in
      if trimmed = js '':::ai'' then (flushAi (flushNormal st))\<lparr>inAiBlock := True\<rparr>
      else if trimmed = js '':::'' then (flushAi st)\<lparr>inAiBlock := False\<rparr>
      else if inAiBlock st then st\<lparr>aiBuffer := aiBuffer st @ [line]\<rparr>
      else st\<lparr>normalBuffer := normalBuffer st @ [line]\<rparr>)"

definition previewStart :: previewState where
  "previewStart = \<lparr>inAiBlock = False, normalBuffer = [], aiBuffer = [], elements = []\<rparr>"

definition previewElements :: "jsstring \<Rightarrow> node list" where
  "previewElements content =
     elements (flushAi (flushNormal (foldl previewLine previewStart (splitLines content))))"

definition MarkdownPreview :: "jsstring \<Rightarrow> node" where
  "MarkdownPreview content = Elem DivProse (previewElements content)"

section \<open>The note state: \<open>useSessionNote\<close>\<close>

text \<open>
  The state of the hook: the id of the loaded note record (\<open>note?.id\<close>, \<open>None\<close> while
  \<open>note\<close> is \<open>null\<close>), the content in memory, the reference \<open>lastSavedContent\<close>, and
  the pending timer behind \<open>saveTimeoutRef\<close>. A pending timer is the time at which it
  is due and what its callback holds: the content to save and the \<open>saveNote\<close> of the
  render in which \<open>updateContent\<close> was made, that is, the note id of that render.
  \<open>now\<close> is the clock in milliseconds. Two logs are kept to state properties:
  \<open>saveCalls\<close>, the contents \<open>saveNote\<close> was called with, and \<open>writes\<close>, the update
  requests sent to the table \<open>session_notes\<close> (note id and content).
\<close>

record noteState =
  note_id :: "jsstring option"
  content :: jsstring
  lastSavedContent :: jsstring
  saveTimeout :: "(nat \<times> jsstring \<times> jsstring option) option"
  now :: nat
  saveCalls :: "jsstring list"
  writes :: "(jsstring \<times> jsstring) list"

text \<open>
  \<open>saveNote\<close>, with the note id of its closure. \<open>ok\<close> tells whether the update request
  succeeds; the request and its answer are taken as one step.
\<close>

definition saveNote :: "bool \<Rightarrow> jsstring option \<Rightarrow> jsstring \<Rightarrow> noteState \<Rightarrow> noteState" where
  "saveNote ok noteId newContent st =
     (let st1 = st\<lparr>saveCalls := saveCalls st @ [newContent]\<rparr> in
      case noteId of
        None \<Rightarrow> st1
      | Some nid \<Rightarrow>
          if nid = [] \<or> newContent = lastSavedContent st then st1
          else (let st2 = st1\<lparr>writes := writes st1 @ [(nid, newContent)]\<rparr> in
                if ok then st2\<lparr>lastSavedContent := newContent\<rparr> else st2))"

definition updateContent :: "jsstring \<Rightarrow> noteState \<Rightarrow> noteState" where
  "updateContent newContent st =
     st\<lparr>content := newContent,
        saveTimeout := Some (now st + 800, newContent, note_id st)\<rparr>"

definition appendToNote :: "bool \<Rightarrow> jsstring \<Rightarrow> noteState \<Rightarrow> noteState" where
  "appendToNote ok text st =
     (let newContent = (if content st \<noteq> [] then content st @ [NL, NL] @ text else text) in
      saveNote ok (note_id st) newContent (st\<lparr>content := newContent\<rparr>))"

definition setNoteContent :: "bool \<Rightarrow> jsstring \<Rightarrow> noteState \<Rightarrow> noteState" where
  "setNoteContent ok newContent st = saveNote ok (note_id st) newContent (st\<lparr>content := newContent\<rparr>)"

definition forceSave :: "bool \<Rightarrow> noteState \<Rightarrow> noteState" where
  "forceSave ok st =
     (let st1 = st\<lparr>saveTimeout := None\<rparr> in
      if content st \<noteq> lastSavedContent st then saveNote ok (note_id st) (content st) st1 else st1)"

text \<open>
  \<open>d\<close> milliseconds pass with no call to the hook: a pending timer that is due by then
  runs its callback.
\<close>

definition wait :: "bool \<Rightarrow> nat \<Rightarrow> noteState \<Rightarrow> noteState" where
  "wait ok d st =
     (let st1 = st\<lparr>now := now st + d\<rparr> in
      case saveTimeout st of
        None \<Rightarrow> st1
      | Some (due, newContent, noteId) \<Rightarrow>
          if due \<le> now st + d then saveNote ok noteId newContent (st1\<lparr>saveTimeout := None\<rparr>)
          else st1)"

datatype noteEvent = UpdateContent jsstring | AppendToNote jsstring | SetNoteContent jsstring
  | ForceSave | Wait nat

fun noteStep :: "noteState \<Rightarrow> bool \<times> noteEvent \<Rightarrow> noteState" where
  "noteStep st (ok, UpdateContent newContent) = updateContent newContent st"
| "noteStep st (ok, AppendToNote text) = appendToNote ok text st"
| "noteStep st (ok, SetNoteContent newContent) = setNoteContent ok newContent st"
| "noteStep st (ok, ForceSave) = forceSave ok st"
| "noteStep st (ok, Wait d) = wait ok d st"

definition noteRun :: "noteState \<Rightarrow> (bool \<times> noteEvent) list \<Rightarrow> noteState" where
  "noteRun st evs = foldl noteStep st evs"

text \<open>
  A burst of typing after a first call of \<open>updateContent\<close>: each further call comes
  \<open>gap\<close> milliseconds after the one before.
\<close>

fun typing :: "bool \<Rightarrow> (nat \<times> jsstring) list \<Rightarrow> (bool \<times> noteEvent) list" where
  "typing ok [] = []"
| "typing ok ((gap, newContent) # calls) =
     (ok, Wait gap) # (ok, UpdateContent newContent) # typing ok calls"

section \<open>The chat: \<open>useChat\<close>\<close>

subsection \<open>The visible history\<close>

datatype role = user | assistant

text \<open>
  A \<open>ChatMessage\<close>. The fields carry the prefix \<open>msg_\<close> (\<open>id\<close> is the identity function of
  HOL).
\<close>

record ChatMessage =
  msg_id :: jsstring
  msg_role :: role
  msg_content :: jsstring
  msg_created_at :: jsstring

text \<open>
  The updater that three places pass to \<open>setMessages\<close>:
  \<open>prev => prev.some(m => m.id === msg.id) ? prev : [...prev, msg]\<close>.
\<close>

definition appendUnlessPresent :: "ChatMessage \<Rightarrow> ChatMessage list \<Rightarrow> ChatMessage list" where
  "appendUnlessPresent msg prev =
     (if list_ex (\<lambda>m. msg_id m = msg_id msg) prev then prev else prev @ [msg])"

text \<open>The handler of the realtime \<open>INSERT\<close> events.\<close>

definition onRealtimeInsert :: "ChatMessage \<Rightarrow> ChatMessage list \<Rightarrow> ChatMessage list" where
  "onRealtimeInsert newMessage prev = appendUnlessPresent newMessage prev"

text \<open>
  \<open>sendMessage\<close>, the part that adds the user's message: \<open>savedUserMsg\<close> is what
  \<open>saveMessage\<close> returned, \<open>None\<close> for \<open>null\<close>.
\<close>

definition addUserMessage :: "ChatMessage option \<Rightarrow> ChatMessage list \<Rightarrow> ChatMessage list" where
  "addUserMessage savedUserMsg prev =
     (case savedUserMsg of Some m \<Rightarrow> appendUnlessPresent m prev | None \<Rightarrow> prev)"

text \<open>Decimal digits of a number, as template literals print it.\<close>

fun digitsOf :: "nat \<Rightarrow> jsstring" where
  "digitsOf n = (if n < 10 then [of_nat (48 + n)] else digitsOf (n div 10) @ [of_nat (48 + n mod 10)])"

text \<open>
  \<open>addAssistantMessage\<close>: \<open>savedMsg\<close> is what \<open>saveMessage\<close> returned; \<open>dateNow\<close> and
  \<open>isoNow\<close> are the values of \<open>Date.now()\<close> and \<open>new Date().toISOString()\<close>. When the
  message could not be saved it is shown all the same, under an id made from the clock.
\<close>

definition tempMessage :: "nat \<Rightarrow> jsstring \<Rightarrow> jsstring \<Rightarrow> ChatMessage" where
  "tempMessage dateNow isoNow text =
     \<lparr>msg_id = js ''temp-'' @ digitsOf dateNow, msg_role = assistant, msg_content = text,
      msg_created_at = isoNow\<rparr>"

definition addAssistantMessage ::
  "ChatMessage option \<Rightarrow> nat \<Rightarrow> jsstring \<Rightarrow> jsstring \<Rightarrow> ChatMessage list \<Rightarrow> ChatMessage list" where
  "addAssistantMessage savedMsg dateNow isoNow text prev =
     (case savedMsg of
        Some m \<Rightarrow> appendUnlessPresent m prev
      | None \<Rightarrow> prev @ [tempMessage dateNow isoNow text])"

subsection \<open>\<open>handleSummarizeCommand\<close>\<close>

text \<open>An \<open>ExtractedInfo\<close>, as far as the summary reads it; \<open>'d\<close> is the type of \<open>data\<close>.\<close>

record 'd ExtractedInfo =
  ent_id :: jsstring
  entity_type :: "jsstring option"
  ent_data :: 'd

record summarizeResult =
  condensedSummary :: jsstring
  suggestedTitle :: jsstring
  keyHighlights :: "jsstring list option"
  recommendations :: "jsstring list option"

text \<open>What \<open>fetch\<close> of the summarize endpoint comes to.\<close>

datatype fetchOutcome = FetchThrows | ResponseNotOk | ResponseOk summarizeResult

text \<open>
  What the function does to the world, in order: the request to \<open>/api/summarize\<close> with the
  entities of its payload, the insert of the summary entity with its \<open>data\<close>, the call of
  \<open>addAssistantMessage\<close>, and the callback \<open>onEntitiesUpdate\<close>.
\<close>

datatype 'd effect =
    FetchSummarize "(jsstring \<times> 'd) list"
  | InsertSummary "(jsstring \<times> jsstring) list"
  | AddAssistantMessage jsstring
  | EntitiesUpdate

definition contextEntities :: "'d ExtractedInfo list \<Rightarrow> jsstring set \<Rightarrow> 'd ExtractedInfo list" where
  "contextEntities entities selectedEntityIds =
     (if selectedEntityIds \<noteq> {}
      then filter (\<lambda>e. ent_id e \<in> selectedEntityIds \<and> entity_type e \<noteq> Some (js ''ai-summary''))
             entities
      else filter (\<lambda>e. entity_type e \<noteq> Some (js ''ai-summary'')) entities)"

definition payloadEntity :: "'d ExtractedInfo \<Rightarrow> jsstring \<times> 'd" where
  "payloadEntity e =
     ((case entity_type e of None \<Rightarrow> js ''generic''
       | Some t \<Rightarrow> if t = [] then js ''generic'' else t),
      ent_data e)"

text \<open>\<open>xs.forEach((x, i) => summaryData[`name_${i + 1}`] = x)\<close>, from index \<open>i\<close> on.\<close>

fun numbered :: "jsstring \<Rightarrow> nat \<Rightarrow> jsstring list \<Rightarrow> (jsstring \<times> jsstring) list" where
  "numbered name i [] = []"
| "numbered name i (x # xs) = (name @ digitsOf (i + 1), x) # numbered name (i + 1) xs"

definition summaryData :: "summarizeResult \<Rightarrow> nat \<Rightarrow> jsstring \<Rightarrow> (jsstring \<times> jsstring) list" where
  "summaryData result itemCount userQuery =
     [(js ''summary'', condensedSummary result),
      (js ''suggested_title'', suggestedTitle result),
      (js ''item_count'', digitsOf itemCount),
      (js ''user_query'', userQuery)] @
     (case keyHighlights result of None \<Rightarrow> [] | Some hs \<Rightarrow> numbered (js ''highlight_'') 0 hs) @
     (case recommendations result of None \<Rightarrow> []
      | Some rs \<Rightarrow> numbered (js ''recommendation_'') 0 rs)"

text \<open>\<open>xs.map(x => `- ${x}`).join('\n')\<close>.\<close>

fun bulletLines :: "jsstring list \<Rightarrow> jsstring" where
  "bulletLines [] = []"
| "bulletLines [x] = js ''- '' @ x"
| "bulletLines (x # xs) = js ''- '' @ x @ [NL] @ bulletLines xs"

definition responseText :: "summarizeResult \<Rightarrow> jsstring" where
  "responseText result =
     js ''**'' @ suggestedTitle result @ js ''**'' @ [NL, NL] @ condensedSummary result @
     (case keyHighlights result of
        None \<Rightarrow> []
      | Some hs \<Rightarrow> if length hs > 0
                   then [NL, NL] @ js ''**Key Highlights:**'' @ [NL] @ bulletLines hs else []) @
     (case recommendations result of
        None \<Rightarrow> []
      | Some rs \<Rightarrow> if length rs > 0
                   then [NL, NL] @ js ''**Recommendations:**'' @ [NL] @ bulletLines rs else [])"

definition handleSummarizeCommand ::
  "'d ExtractedInfo list \<Rightarrow> jsstring set \<Rightarrow> fetchOutcome \<Rightarrow> jsstring \<Rightarrow> 'd effect list" where
  "handleSummarizeCommand entities selectedEntityIds outcome userQuery =
     (let ctx = contextEntities entities selectedEntityIds in
      if length ctx = 0
      then [AddAssistantMessage
              (js ''There's nothing to summarize yet. Upload some screenshots first!'')]
      else FetchSummarize (map payloadEntity ctx) #
           (case outcome of
              ResponseOk result \<Rightarrow>
                [InsertSummary (summaryData result (length ctx) userQuery),
                 AddAssistantMessage (responseText result),
                 EntitiesUpdate]
            | _ \<Rightarrow>
                [AddAssistantMessage
                   (js ''Sorry, I couldn't create a summary. Please try again.'')]))"

section \<open>Notions used to state the properties\<close>

text \<open>
  The property that the annotated text is checked against: three newlines in a row
  somewhere in the string.
\<close>

fun hasTripleNewline :: "jsstring \<Rightarrow> bool" where
  "hasTripleNewline (a # b # c # rest) =
     ((a = NL \<and> b = NL \<and> c = NL) \<or> hasTripleNewline (b # c # rest))"
| "hasTripleNewline _ = False"

abbreviation newlineRun :: "jsstring \<Rightarrow> nat" where
  "newlineRun s \<equiv> length (takeWhile (\<lambda>x. x = NL) s)"

text \<open>An inline node: one of the four inline elements, with a string as its only child.\<close>

fun isInlineNode :: "node \<Rightarrow> bool" where
  "isInlineNode (Elem t [Text s]) = (t = Span \<or> t = Strong \<or> t = Em \<or> t = Code)"
| "isInlineNode _ = False"

text \<open>The delimiter of each kind of match.\<close>

definition delimiterOf :: "matchType \<Rightarrow> jsstring" where
  "delimiterOf ty = (case ty of bold \<Rightarrow> js ''**'' | italic \<Rightarrow> js ''*'' | code \<Rightarrow> js ''`'')"

text \<open>
  \<open>m\<close> is the match of \<open>open(.+?)close\<close> in \<open>s\<close> that a regular expression engine
  reports: it is the substring at \<open>index m\<close>, its group is not empty and holds no line
  terminator, no shorter group at that start is followed by the closing delimiter, and
  no match starts further left.
\<close>

definition isLeftmostLazyMatch :: "jsstring \<Rightarrow> jsstring \<Rightarrow> jsstring \<Rightarrow> regexMatch \<Rightarrow> bool" where
  "isLeftmostLazyMatch opn close s m \<longleftrightarrow>
     whole m = opn @ group1 m @ close \<and>
     group1 m \<noteq> [] \<and>
     (\<forall>c\<in>set (group1 m). \<not> isLineTerminator c) \<and>
     index m + length (whole m) \<le> length s \<and>
     slice s (index m) (index m + length (whole m)) = whole m \<and>
     (\<forall>j. 0 < j \<and> j < length (group1 m) \<longrightarrow>
          \<not> startsWith (drop (index m + length opn + j) s) close) \<and>
     (\<forall>j<index m. \<not> (\<exists>g post. g \<noteq> [] \<and> (\<forall>c\<in>set g. \<not> isLineTerminator c) \<and>
                                drop j s = opn @ g @ close @ post))"

text \<open>The highlighted container of a node of an AI block.\<close>

definition aiWrap :: "node \<Rightarrow> node" where
  "aiWrap n = Elem DivAi [n]"

text \<open>
  What kind of list item a line is, by the two tests at the head of the loop of
  \<open>renderLines\<close>, and the text of the item.
\<close>

definition lineItem :: "jsstring \<Rightarrow> (listType \<times> jsstring) option" where
  "lineItem line =
     (let trimmed = trim line in
      if startsWith trimmed (js ''- '') \<or> startsWith trimmed (js ''* '')
      then Some (bullet_list, sliceFrom trimmed 2)
      else map_option (Pair numbered_list) (numberedMatch trimmed))"

definition wrapState :: "renderState \<Rightarrow> renderState" where
  "wrapState st = (fst st, map aiWrap (snd st))"

section \<open>Properties of the diff annotator\<close>

subsection \<open>Trimming\<close>

lemma isWhiteSpace_NL: "isWhiteSpace NL"
  by (simp add: isWhiteSpace_def NL_def)

lemma trimEnd_last: "trimEnd t \<noteq> [] \<Longrightarrow> \<not> isWhiteSpace (last (trimEnd t))"
  unfolding trimEnd_def using hd_dropWhile [of isWhiteSpace "rev t"]
  by (simp add: last_rev)

lemma split_trailing: "rev (dropWhile P (rev xs)) @ rev (takeWhile P (rev xs)) = xs"
proof -
  have "rev (takeWhile P (rev xs) @ dropWhile P (rev xs)) = xs" by simp
  then show ?thesis by (simp only: rev_append)
qed

lemma trimEnd_hd: "trimEnd t \<noteq> [] \<Longrightarrow> hd (trimEnd t) = hd t"
proof -
  assume a: "trimEnd t \<noteq> []"
  have "hd (trimEnd t @ rev (takeWhile isWhiteSpace (rev t))) = hd t"
    unfolding trimEnd_def by (simp only: split_trailing)
  with a show ?thesis by simp
qed

lemma trim_ends:
  assumes "trim s \<noteq> []"
  shows "\<not> isWhiteSpace (hd (trim s))" and "\<not> isWhiteSpace (last (trim s))"
proof -
  from assms have ne: "trimStart s \<noteq> []"
    by (auto simp: trim_def trimEnd_def)
  then have "\<not> isWhiteSpace (hd (trimStart s))"
    unfolding trimStart_def by (rule hd_dropWhile)
  with assms show "\<not> isWhiteSpace (hd (trim s))"
    by (simp add: trim_def trimEnd_hd)
  from assms show "\<not> isWhiteSpace (last (trim s))"
    unfolding trim_def by (rule trimEnd_last)
qed

lemma trim_ends_NL:
  assumes "trim s \<noteq> []"
  shows "hd (trim s) \<noteq> NL" and "last (trim s) \<noteq> NL"
  using trim_ends [OF assms] isWhiteSpace_NL by auto

lemma trim_empty_iff: "trim s = [] \<longleftrightarrow> (\<forall>c\<in>set s. isWhiteSpace c)"
proof
  assume "\<forall>c\<in>set s. isWhiteSpace c"
  then have e: "dropWhile isWhiteSpace s = []" by simp
  show "trim s = []" unfolding trim_def trimStart_def trimEnd_def e by simp
next
  assume "trim s = []"
  then have "\<forall>c\<in>set (dropWhile isWhiteSpace s). isWhiteSpace c"
    by (simp add: trim_def trimStart_def trimEnd_def dropWhile_eq_Nil_conv)
  then have "dropWhile isWhiteSpace s = []"
    using hd_dropWhile [of isWhiteSpace s] by (cases "dropWhile isWhiteSpace s") auto
  then show "\<forall>c\<in>set s. isWhiteSpace c" by (simp add: dropWhile_eq_Nil_conv)
qed

subsection \<open>Collapsing runs of newlines\<close>

lemma run_append_nonNL:
  "ys = [] \<or> hd ys \<noteq> NL \<Longrightarrow>
   takeWhile (\<lambda>x. x = NL) (cs @ ys) = takeWhile (\<lambda>x. x = NL) cs \<and>
   dropWhile (\<lambda>x. x = NL) (cs @ ys) = dropWhile (\<lambda>x. x = NL) cs @ ys"
  by (cases ys; induction cs) auto

lemma collapse_append_right:
  "ys = [] \<or> hd ys \<noteq> NL \<Longrightarrow>
   collapseNewlines (xs @ ys) = collapseNewlines xs @ collapseNewlines ys"
proof (induction xs rule: collapseNewlines.induct)
  case 1
  then show ?case by simp
next
  case (2 c cs)
  then show ?case by (simp add: run_append_nonNL)
qed

lemma run_append_last:
  "cs \<noteq> [] \<Longrightarrow> last cs \<noteq> NL \<Longrightarrow>
   takeWhile (\<lambda>x. x = NL) (cs @ ys) = takeWhile (\<lambda>x. x = NL) cs \<and>
   dropWhile (\<lambda>x. x = NL) (cs @ ys) = dropWhile (\<lambda>x. x = NL) cs @ ys \<and>
   dropWhile (\<lambda>x. x = NL) cs \<noteq> [] \<and> last (dropWhile (\<lambda>x. x = NL) cs) = last cs"
  by (induction cs) (auto split: if_splits)

lemma collapse_append_left:
  "xs = [] \<or> last xs \<noteq> NL \<Longrightarrow>
   collapseNewlines (xs @ ys) = collapseNewlines xs @ collapseNewlines ys"
proof (induction xs rule: collapseNewlines.induct)
  case 1
  then show ?case by simp
next
  case (2 c cs)
  show ?case
  proof (cases "cs = []")
    case True
    with 2 show ?thesis by simp
  next
    case False
    with 2(3) have l: "last cs \<noteq> NL" by simp
    note r = run_append_last [OF False l, of ys]
    from 2 False l r show ?thesis by simp
  qed
qed

lemma dropWhile_NL_run: "newlineRun (dropWhile (\<lambda>x. x = NL) cs) = 0"
  by (induction cs) auto

lemma run_collapse:
  "newlineRun (collapseNewlines xs) = (if 3 \<le> newlineRun xs then 2 else newlineRun xs)"
proof (induction xs rule: collapseNewlines.induct)
  case 1
  then show ?case by simp
next
  case (2 c cs)
  show ?case
  proof (cases "c = NL \<and> 2 \<le> newlineRun cs")
    case True
    with 2(1) show ?thesis by (simp add: dropWhile_NL_run)
  next
    case False
    with 2(2) show ?thesis by auto
  qed
qed

lemma hasTriple_cons_other: "a \<noteq> NL \<Longrightarrow> hasTripleNewline (a # xs) = hasTripleNewline xs"
  by (cases xs rule: hasTripleNewline.cases) auto

lemma hasTriple_cons_short:
  "newlineRun xs < 2 \<Longrightarrow> hasTripleNewline (a # xs) = hasTripleNewline xs"
  by (cases xs rule: hasTripleNewline.cases) (auto split: if_splits)

lemma hasTriple_cons2_zero:
  "newlineRun xs = 0 \<Longrightarrow> hasTripleNewline (a # b # xs) = hasTripleNewline xs"
  by (cases xs rule: hasTripleNewline.cases) (auto split: if_splits)

lemma collapse_no_triple: "\<not> hasTripleNewline (collapseNewlines xs)"
proof (induction xs rule: collapseNewlines.induct)
  case 1
  then show ?case by simp
next
  case (2 c cs)
  show ?case
  proof (cases "c = NL \<and> 2 \<le> newlineRun cs")
    case True
    let ?d = "dropWhile (\<lambda>x. x = NL) cs"
    have "newlineRun (collapseNewlines ?d) = 0"
      by (simp add: run_collapse dropWhile_NL_run)
    then have "hasTripleNewline (NL # NL # collapseNewlines ?d) =
               hasTripleNewline (collapseNewlines ?d)"
      by (rule hasTriple_cons2_zero)
    with 2(1) True show ?thesis by simp
  next
    case False
    have "hasTripleNewline (c # collapseNewlines cs) = hasTripleNewline (collapseNewlines cs)"
    proof (cases "c = NL")
      case True
      with False have "newlineRun (collapseNewlines cs) < 2" by (simp add: run_collapse)
      then show ?thesis by (rule hasTriple_cons_short)
    next
      case False
      then show ?thesis by (rule hasTriple_cons_other)
    qed
    with 2(2) False show ?thesis by auto
  qed
qed

lemma collapse_fixed: "\<not> hasTripleNewline xs \<Longrightarrow> collapseNewlines xs = xs"
proof (induction xs rule: collapseNewlines.induct)
  case 1
  then show ?case by simp
next
  case (2 c cs)
  have a: "\<not> (c = NL \<and> 2 \<le> newlineRun cs)"
    using 2(3) by (cases cs rule: hasTripleNewline.cases) (auto split: if_splits)
  have "\<not> hasTripleNewline cs"
    using 2(3) by (cases cs rule: hasTripleNewline.cases) (auto split: if_splits)
  with 2(2) a show ?case by auto
qed

lemma collapse_replicate: "collapseNewlines (replicate n NL) = replicate (min n 2) NL"
proof (cases n)
  case 0
  then show ?thesis by simp
next
  case (Suc m)
  show ?thesis
  proof (cases "2 \<le> m")
    case True
    with Suc show ?thesis by (simp add: min_def numeral_2_eq_2)
  next
    case False
    then have "m = 0 \<or> m = 1" by auto
    with Suc show ?thesis by (auto simp: numeral_2_eq_2)
  qed
qed

lemma trailing_run:
  "\<exists>a k. xs = a @ replicate k NL \<and> (a = [] \<or> last a \<noteq> NL)"
proof -
  let ?a = "rev (dropWhile (\<lambda>x. x = NL) (rev xs))"
  let ?n = "rev (takeWhile (\<lambda>x. x = NL) (rev xs))"
  have xs: "xs = ?a @ ?n" by (simp only: split_trailing)
  have a: "?a = [] \<or> last ?a \<noteq> NL"
    using hd_dropWhile [of "\<lambda>x. x = NL" "rev xs"] by (auto simp: last_rev)
  have "\<forall>x\<in>set ?n. x = NL" by (auto dest: set_takeWhileD)
  then have "replicate (length ?n) NL = ?n" by (rule replicate_length_same)
  with xs have "xs = ?a @ replicate (length ?n) NL" by simp
  with a show ?thesis by blast
qed

lemma leading_run:
  "\<exists>k d. xs = replicate k NL @ d \<and> (d = [] \<or> hd d \<noteq> NL)"
proof -
  let ?n = "takeWhile (\<lambda>x. x = NL) xs"
  let ?d = "dropWhile (\<lambda>x. x = NL) xs"
  have d: "?d = [] \<or> hd ?d \<noteq> NL"
    using hd_dropWhile [of "\<lambda>x. x = NL" xs] by blast
  have "\<forall>x\<in>set ?n. x = NL" by (auto dest: set_takeWhileD)
  then have "replicate (length ?n) NL = ?n" by (rule replicate_length_same)
  then have "xs = replicate (length ?n) NL @ ?d" by simp
  with d show ?thesis by blast
qed

lemma collapse_ends_two:
  "endsWith (collapseNewlines (xs @ [NL, NL])) [NL, NL]"
proof -
  from trailing_run [of xs] obtain a k
    where xs: "xs = a @ replicate k NL" and a: "a = [] \<or> last a \<noteq> NL" by blast
  have "replicate k NL @ [NL, NL] = replicate (k + 2) NL"
    by (induction k) auto
  then have "xs @ [NL, NL] = a @ replicate (k + 2) NL"
    using xs by simp
  moreover have "collapseNewlines (a @ replicate (k + 2) NL) =
                 collapseNewlines a @ collapseNewlines (replicate (k + 2) NL)"
    using a by (rule collapse_append_left)
  ultimately have "collapseNewlines (xs @ [NL, NL]) = collapseNewlines a @ [NL, NL]"
    by (simp add: collapse_replicate numeral_2_eq_2)
  then show ?thesis by (simp add: endsWith_def)
qed

lemma collapse_starts_two:
  "startsWith (collapseNewlines (NL # NL # zs)) [NL, NL]"
proof -
  from leading_run [of zs] obtain k d
    where zs: "zs = replicate k NL @ d" and d: "d = [] \<or> hd d \<noteq> NL" by blast
  have "NL # NL # zs = replicate (k + 2) NL @ d"
    using zs by (simp add: numeral_2_eq_2)
  moreover have "collapseNewlines (replicate (k + 2) NL @ d) =
                 collapseNewlines (replicate (k + 2) NL) @ collapseNewlines d"
    using d by (rule collapse_append_right)
  ultimately have "collapseNewlines (NL # NL # zs) = [NL, NL] @ collapseNewlines d"
    by (simp add: collapse_replicate numeral_2_eq_2)
  then show ?thesis by (simp add: startsWith_def)
qed

lemma endsWith_NL: "endsWith p [NL] \<longleftrightarrow> p \<noteq> [] \<and> last p = NL"
  by (cases p rule: rev_cases) (auto simp: endsWith_def)

lemma startsWith_NL: "startsWith p [NL] \<longleftrightarrow> p \<noteq> [] \<and> hd p = NL"
  by (cases p) (auto simp: startsWith_def)

lemma cleanPrefix_shape:
  "p \<noteq> [] \<Longrightarrow> \<exists>x. cleanPrefixOf p = x @ [NL]"
  by (cases p rule: rev_cases) (auto simp: cleanPrefixOf_def endsWith_NL)

lemma cleanSuffix_shape:
  "p \<noteq> [] \<Longrightarrow> \<exists>x. cleanSuffixOf p = NL # x"
  by (cases p) (auto simp: cleanSuffixOf_def startsWith_NL)

lemma collapse_ends:
  assumes "xs \<noteq> []" and "hd xs \<noteq> NL" and "last xs \<noteq> NL"
  shows "collapseNewlines xs \<noteq> [] \<and> hd (collapseNewlines xs) \<noteq> NL \<and>
         last (collapseNewlines xs) \<noteq> NL"
proof -
  from assms(1,2) obtain c cs where xs: "xs = c # cs" "c \<noteq> NL" by (cases xs) auto
  then have h: "collapseNewlines xs = c # collapseNewlines cs" by simp
  have "xs = butlast xs @ [last xs]" using assms(1) by simp
  then have "collapseNewlines xs = collapseNewlines (butlast xs @ [last xs])" by simp
  also have "\<dots> = collapseNewlines (butlast xs) @ collapseNewlines [last xs]"
    using assms(3) by (intro collapse_append_right) simp
  also have "\<dots> = collapseNewlines (butlast xs) @ [last xs]" by simp
  finally have "last (collapseNewlines xs) = last xs" by simp
  with h xs(2) assms(3) show ?thesis by simp
qed

lemma collapse_wrap:
  assumes "t \<noteq> []" "hd t \<noteq> NL" "last t \<noteq> NL"
  shows "collapseNewlines (wrapAdded p t s) =
     collapseNewlines (p @ [NL]) @ js '':::ai'' @ [NL] @ collapseNewlines t @ [NL] @ js '':::'' @
     collapseNewlines (NL # s)"
proof -
  have w: "wrapAdded p t s = (p @ [NL]) @ (js '':::ai'' @ ([NL] @ (t @ ([NL] @ (js '':::'' @ (NL # s))))))"
    by (simp add: wrapAdded_def js_def NL_def)
  have 1: "collapseNewlines (js '':::'' @ (NL # s)) = js '':::'' @ collapseNewlines (NL # s)"
    by (subst collapse_append_left) (simp_all add: js_def NL_def)
  have 2: "collapseNewlines ([NL] @ (js '':::'' @ (NL # s))) = [NL] @ collapseNewlines (js '':::'' @ (NL # s))"
    by (subst collapse_append_right) (simp_all add: js_def NL_def)
  have 3: "collapseNewlines (t @ ([NL] @ (js '':::'' @ (NL # s)))) =
           collapseNewlines t @ collapseNewlines ([NL] @ (js '':::'' @ (NL # s)))"
    using assms by (intro collapse_append_left) simp
  have 4: "collapseNewlines ([NL] @ (t @ ([NL] @ (js '':::'' @ (NL # s))))) =
           [NL] @ collapseNewlines (t @ ([NL] @ (js '':::'' @ (NL # s))))"
    using assms by (subst collapse_append_right) simp_all
  have 5: "collapseNewlines (js '':::ai'' @ ([NL] @ (t @ ([NL] @ (js '':::'' @ (NL # s)))))) =
           js '':::ai'' @ collapseNewlines ([NL] @ (t @ ([NL] @ (js '':::'' @ (NL # s)))))"
    by (subst collapse_append_left) (simp_all add: js_def NL_def)
  have 6: "collapseNewlines ((p @ [NL]) @ (js '':::ai'' @ ([NL] @ (t @ ([NL] @ (js '':::'' @ (NL # s))))))) =
           collapseNewlines (p @ [NL]) @ collapseNewlines (js '':::ai'' @ ([NL] @ (t @ ([NL] @ (js '':::'' @ (NL # s))))))"
    by (rule collapse_append_right) (simp add: js_def NL_def)
  show ?thesis
    unfolding w 6 5 4 3 2 1 by simp
qed

subsection \<open>The worked example of the specification\<close>

text \<open>
  C1 (as amended). For the old text \<open>hello world\<close> and the new text
  \<open>hello brave new world\<close> the common prefix is \<open>hello \<close> (with its space), the common
  suffix is \<open>world\<close> (the suffix scan stops where the old text's prefix ends, so the space
  before it is not part of the suffix), the added region is \<open>brave new \<close> with a trailing
  space, its trimmed form is \<open>brave new\<close>, and the annotated text is the prefix, a blank
  line, the opening delimiter, \<open>brave new\<close>, the closing delimiter, a blank line and the
  suffix.
\<close>

theorem markAiAdditions_hello_example:
  "prefixOf (js ''hello world'') (js ''hello brave new world'') = js ''hello '' \<and>
   suffixOf (js ''hello world'') (js ''hello brave new world'') = js ''world'' \<and>
   addedContentOf (js ''hello world'') (js ''hello brave new world'') = js ''brave new '' \<and>
   trim (addedContentOf (js ''hello world'') (js ''hello brave new world'')) = js ''brave new'' \<and>
   markAiAdditions (js ''hello world'') (js ''hello brave new world'') =
     js ''hello '' @ [NL, NL] @ js '':::ai'' @ [NL] @ js ''brave new'' @ [NL] @ js '':::'' @
     [NL, NL] @ js ''world''"
  by code_simp

text \<open>
  C1 as the specification words it (suffix \<open> world\<close> with a leading space, added region
  \<open>brave new\<close>) does not hold of the code.
\<close>

theorem markAiAdditions_hello_counterexample:
  "\<not> (prefixOf (js ''hello world'') (js ''hello brave new world'') = js ''hello '' \<and>
      suffixOf (js ''hello world'') (js ''hello brave new world'') = js '' world'' \<and>
      addedContentOf (js ''hello world'') (js ''hello brave new world'') = js ''brave new'')"
  by code_simp

subsection \<open>The degenerate cases\<close>

text \<open>
  C3. \<open>markAiAdditions\<close> returns the new text unchanged, with no marker, whenever the old
  text is empty or consists of white space only, and whenever the added region is empty
  or consists of white space only; in particular for the pairs \<open>("", "hello")\<close> and
  \<open>("same", "same")\<close>.
\<close>

theorem markAiAdditions_identity_degenerate:
  "((\<forall>c\<in>set oldContent. isWhiteSpace c) \<longrightarrow>
      markAiAdditions oldContent newContent = newContent) \<and>
   ((\<forall>c\<in>set (addedContentOf oldContent newContent). isWhiteSpace c) \<longrightarrow>
      markAiAdditions oldContent newContent = newContent) \<and>
   markAiAdditions (js '''') (js ''hello'') = js ''hello'' \<and>
   markAiAdditions (js ''same'') (js ''same'') = js ''same''"
proof -
  have "markAiAdditions (js '''') (js ''hello'') = js ''hello''" by code_simp
  moreover have "markAiAdditions (js ''same'') (js ''same'') = js ''same''" by code_simp
  ultimately show ?thesis
    by (simp add: markAiAdditions_def Let_def trim_empty_iff [symmetric])
qed

theorem markAiAdditions_identity_degenerate_witness:
  "markAiAdditions (js '' \<newline> '') (js ''hello'') = js ''hello'' \<and>
   addedContentOf (js ''same text'') (js ''same  text'') = js '' '' \<and>
   markAiAdditions (js ''same text'') (js ''same  text'') = js ''same  text''"
proof -
  have a: "\<forall>c\<in>set (js '' \<newline> ''). isWhiteSpace c" by code_simp
  have b: "addedContentOf (js ''same text'') (js ''same  text'') = js '' ''" by code_simp
  have c: "\<forall>c\<in>set (js '' ''). isWhiteSpace c" by code_simp
  from markAiAdditions_identity_degenerate [of "js '' \<newline> ''" "js ''hello''"] a
  have 1: "markAiAdditions (js '' \<newline> '') (js ''hello'') = js ''hello''" by blast
  from markAiAdditions_identity_degenerate [of "js ''same text''" "js ''same  text''"] b c
  have 2: "markAiAdditions (js ''same text'') (js ''same  text'') = js ''same  text''" by simp
  from b 1 2 show ?thesis by blast
qed

subsection \<open>The marker block\<close>

text \<open>
  C2 (as amended). Whenever \<open>markAiAdditions\<close> inserts a marker block, the annotated text
  is: the prefix made to end in a newline, one more newline, the opening delimiter, one
  newline, the trimmed added region, one newline, the closing delimiter, one newline, and
  the suffix made to start with a newline; with every run of three or more newlines
  anywhere in that text replaced by two. The region between the delimiters begins and
  ends with a code unit that is no newline, so exactly one newline joins it to each. So a prefix that is not empty is followed by
  two newlines before the opening delimiter and a suffix that is not empty is preceded
  by two newlines after the closing delimiter (an empty prefix or suffix leaves one),
  the trimmed added region itself is reproduced as it is when it holds no run of three
  newlines, and the annotated text never contains three newlines in a row.
\<close>

theorem markAiAdditions_marker_block:
  assumes "trim oldContent \<noteq> []"
    and "trim (addedContentOf oldContent newContent) \<noteq> []"
  shows "markAiAdditions oldContent newContent =
           collapseNewlines (cleanPrefixOf (prefixOf oldContent newContent) @ [NL]) @
           js '':::ai'' @ [NL] @
           collapseNewlines (trim (addedContentOf oldContent newContent)) @ [NL] @
           js '':::'' @
           collapseNewlines (NL # cleanSuffixOf (suffixOf oldContent newContent)) \<and>
         (prefixOf oldContent newContent \<noteq> [] \<longrightarrow>
            endsWith (collapseNewlines (cleanPrefixOf (prefixOf oldContent newContent) @ [NL]))
              [NL, NL]) \<and>
         (prefixOf oldContent newContent = [] \<longrightarrow>
            collapseNewlines (cleanPrefixOf (prefixOf oldContent newContent) @ [NL]) = [NL]) \<and>
         (suffixOf oldContent newContent \<noteq> [] \<longrightarrow>
            startsWith (collapseNewlines (NL # cleanSuffixOf (suffixOf oldContent newContent)))
              [NL, NL]) \<and>
         (suffixOf oldContent newContent = [] \<longrightarrow>
            collapseNewlines (NL # cleanSuffixOf (suffixOf oldContent newContent)) = [NL]) \<and>
         (\<not> hasTripleNewline (trim (addedContentOf oldContent newContent)) \<longrightarrow>
            collapseNewlines (trim (addedContentOf oldContent newContent)) =
            trim (addedContentOf oldContent newContent)) \<and>
         collapseNewlines (trim (addedContentOf oldContent newContent)) \<noteq> [] \<and>
         hd (collapseNewlines (trim (addedContentOf oldContent newContent))) \<noteq> NL \<and>
         last (collapseNewlines (trim (addedContentOf oldContent newContent))) \<noteq> NL \<and>
         \<not> hasTripleNewline (markAiAdditions oldContent newContent)"
proof -
  let ?p = "prefixOf oldContent newContent"
  let ?s = "suffixOf oldContent newContent"
  let ?t = "trim (addedContentOf oldContent newContent)"
  have m: "markAiAdditions oldContent newContent =
           collapseNewlines (wrapAdded (cleanPrefixOf ?p) ?t (cleanSuffixOf ?s))"
    using assms by (simp add: markAiAdditions_def Let_def)
  have 1: "markAiAdditions oldContent newContent =
           collapseNewlines (cleanPrefixOf ?p @ [NL]) @ js '':::ai'' @ [NL] @
           collapseNewlines ?t @ [NL] @ js '':::'' @ collapseNewlines (NL # cleanSuffixOf ?s)"
    unfolding m using assms(2) trim_ends_NL [OF assms(2)] by (rule collapse_wrap)
  have 2: "endsWith (collapseNewlines (cleanPrefixOf ?p @ [NL])) [NL, NL]" if "?p \<noteq> []"
  proof -
    from cleanPrefix_shape [OF that] obtain x where "cleanPrefixOf ?p = x @ [NL]" ..
    then have "cleanPrefixOf ?p @ [NL] = x @ [NL, NL]" by simp
    then show ?thesis by (simp only: collapse_ends_two)
  qed
  have 3: "collapseNewlines (cleanPrefixOf ?p @ [NL]) = [NL]" if "?p = []"
    using that by (simp add: cleanPrefixOf_def endsWith_def)
  have 4: "startsWith (collapseNewlines (NL # cleanSuffixOf ?s)) [NL, NL]" if "?s \<noteq> []"
  proof -
    from cleanSuffix_shape [OF that] obtain x where "cleanSuffixOf ?s = NL # x" ..
    then show ?thesis by (simp only: collapse_starts_two)
  qed
  have 5: "collapseNewlines (NL # cleanSuffixOf ?s) = [NL]" if "?s = []"
    using that by (simp add: cleanSuffixOf_def startsWith_def)
  have 6: "collapseNewlines ?t = ?t" if "\<not> hasTripleNewline ?t"
    using that by (rule collapse_fixed)
  have 7: "\<not> hasTripleNewline (markAiAdditions oldContent newContent)"
    unfolding m by (rule collapse_no_triple)
  have 8: "collapseNewlines ?t \<noteq> [] \<and> hd (collapseNewlines ?t) \<noteq> NL \<and>
           last (collapseNewlines ?t) \<noteq> NL"
    using assms(2) trim_ends_NL [OF assms(2)] by (rule collapse_ends)
  from 1 2 3 4 5 6 7 8 show ?thesis by blast
qed

theorem markAiAdditions_marker_block_witness:
  "trim (js ''hello world'') \<noteq> [] \<and>
   trim (addedContentOf (js ''hello world'') (js ''hello brave new world'')) \<noteq> [] \<and>
   prefixOf (js ''hello world'') (js ''hello brave new world'') \<noteq> [] \<and>
   suffixOf (js ''hello world'') (js ''hello brave new world'') \<noteq> [] \<and>
   \<not> hasTripleNewline (trim (addedContentOf (js ''hello world'') (js ''hello brave new world''))) \<and>
   endsWith (collapseNewlines
      (cleanPrefixOf (prefixOf (js ''hello world'') (js ''hello brave new world'')) @ [NL]))
      [NL, NL] \<and>
   startsWith (collapseNewlines
      (NL # cleanSuffixOf (suffixOf (js ''hello world'') (js ''hello brave new world''))))
      [NL, NL] \<and>
   collapseNewlines (trim (addedContentOf (js ''hello world'') (js ''hello brave new world''))) =
     trim (addedContentOf (js ''hello world'') (js ''hello brave new world'')) \<and>
   \<not> hasTripleNewline (markAiAdditions (js ''hello world'') (js ''hello brave new world''))"
proof -
  have a: "trim (js ''hello world'') \<noteq> []" by code_simp
  have b: "trim (addedContentOf (js ''hello world'') (js ''hello brave new world'')) \<noteq> []"
    by code_simp
  have c: "prefixOf (js ''hello world'') (js ''hello brave new world'') \<noteq> []" by code_simp
  have d: "suffixOf (js ''hello world'') (js ''hello brave new world'') \<noteq> []" by code_simp
  have e: "\<not> hasTripleNewline
             (trim (addedContentOf (js ''hello world'') (js ''hello brave new world'')))"
    by code_simp
  from markAiAdditions_marker_block [OF a b] a b c d e show ?thesis by blast
qed

text \<open>
  C2 as the specification words it, with exactly one newline between the prefix text and
  the opening delimiter and between the closing delimiter and the suffix text, does not
  hold of the code. On the worked example the annotated text begins with the prefix
  \<open>hello \<close>, and the run of newlines that stands between it and the opening delimiter
  is not of length one (it is of length two); read from its end, the annotated text
  begins with the suffix \<open>world\<close>, and the run of newlines between it and the closing
  delimiter is not of length one either.
\<close>

theorem markAiAdditions_one_newline_counterexample:
  "take 6 (markAiAdditions (js ''hello world'') (js ''hello brave new world'')) = js ''hello '' \<and>
   newlineRun (drop 6 (markAiAdditions (js ''hello world'') (js ''hello brave new world''))) \<noteq> 1 \<and>
   startsWith
     (drop (6 + newlineRun
               (drop 6 (markAiAdditions (js ''hello world'') (js ''hello brave new world''))))
        (markAiAdditions (js ''hello world'') (js ''hello brave new world'')))
     (js '':::ai'') \<and>
   take 5 (rev (markAiAdditions (js ''hello world'') (js ''hello brave new world''))) =
     rev (js ''world'') \<and>
   newlineRun
     (drop 5 (rev (markAiAdditions (js ''hello world'') (js ''hello brave new world'')))) \<noteq> 1 \<and>
   startsWith
     (drop (5 + newlineRun
               (drop 5 (rev (markAiAdditions (js ''hello world'')
                               (js ''hello brave new world'')))))
        (rev (markAiAdditions (js ''hello world'') (js ''hello brave new world''))))
     (rev (js '':::''))"
  by code_simp

section \<open>Properties of the renderer\<close>

subsection \<open>The inline parser\<close>

lemma lazyUntil_sound:
  "lazyUntil close acc s = Some g \<Longrightarrow>
   \<exists>mid post. g = acc @ mid \<and> s = mid @ close @ post \<and>
     (\<forall>j<length mid. \<not> startsWith (drop j s) close) \<and>
     (\<forall>c\<in>set mid. \<not> isLineTerminator c)"
proof (induction close acc s arbitrary: g rule: lazyUntil.induct)
  case (1 close acc)
  then show ?case by (auto simp: startsWith_def split: if_splits)
next
  case (2 close acc c cs)
  show ?case
  proof (cases "startsWith (c # cs) close")
    case True
    then have "c # cs = close @ drop (length close) (c # cs)"
      unfolding startsWith_def by (metis append_take_drop_id)
    with True 2(2) show ?thesis
      by (intro exI [of _ "[]"] exI [of _ "drop (length close) (c # cs)"]) auto
  next
    case False
    with 2(2) have lt: "\<not> isLineTerminator c" and r: "lazyUntil close (acc @ [c]) cs = Some g"
      by (auto split: if_splits)
    from 2(1) [OF False lt r] obtain mid post where
      m: "g = (acc @ [c]) @ mid" "cs = mid @ close @ post"
         "\<forall>j<length mid. \<not> startsWith (drop j cs) close" "\<forall>c\<in>set mid. \<not> isLineTerminator c"
      by blast
    have "\<forall>j<length (c # mid). \<not> startsWith (drop j (c # cs)) close"
    proof (intro allI impI)
      fix j assume "j < length (c # mid)"
      then show "\<not> startsWith (drop j (c # cs)) close"
        using False m(3) by (cases j) auto
    qed
    with m lt show ?thesis
      by (intro exI [of _ "c # mid"] exI [of _ post]) auto
  qed
qed

lemma matchAt_sound:
  assumes "matchAt opn close s = Some g"
  shows "\<exists>post. s = opn @ g @ close @ post \<and> g \<noteq> [] \<and> (\<forall>c\<in>set g. \<not> isLineTerminator c) \<and>
     (\<forall>j. 0 < j \<and> j < length g \<longrightarrow> \<not> startsWith (drop (length opn + j) s) close)"
proof -
  from assms have sw: "startsWith s opn" by (auto simp: matchAt_def split: if_splits)
  then have s: "s = opn @ drop (length opn) s"
    unfolding startsWith_def by (metis append_take_drop_id)
  from assms sw obtain c cs where d: "drop (length opn) s = c # cs"
    and lt: "\<not> isLineTerminator c" and l: "lazyUntil close [c] cs = Some g"
    by (auto simp: matchAt_def split: list.splits if_splits)
  from lazyUntil_sound [OF l] obtain mid post where
    m: "g = [c] @ mid" "cs = mid @ close @ post"
       "\<forall>j<length mid. \<not> startsWith (drop j cs) close" "\<forall>c\<in>set mid. \<not> isLineTerminator c"
    by blast
  have "\<not> startsWith (drop (length opn + j) s) close" if "0 < j \<and> j < length g" for j
  proof -
    from that obtain k where k: "j = Suc k" "k < length mid" using m(1) by (cases j) auto
    have "drop (length opn + j) s = drop j (drop (length opn) s)" by (simp add: add.commute)
    with d k have "drop (length opn + j) s = drop k cs" by simp
    with m(3) k show ?thesis by simp
  qed
  moreover have "s = opn @ g @ close @ post" using s d m(1,2) by simp
  ultimately show ?thesis using m lt by auto
qed

lemma searchFrom_sound:
  "searchFrom opn close i s = Some m \<Longrightarrow>
   i \<le> index m \<and> index m - i \<le> length s \<and>
   matchAt opn close (drop (index m - i) s) = Some (group1 m) \<and>
   (\<forall>j<index m - i. matchAt opn close (drop j s) = None)"
proof (induction opn close i s rule: searchFrom.induct)
  case (1 opn close i)
  then show ?case by (auto split: option.splits)
next
  case (2 opn close i c cs)
  show ?case
  proof (cases "matchAt opn close (c # cs)")
    case None
    with 2(2) have r: "searchFrom opn close (i + 1) cs = Some m" by simp
    from 2(1) [OF None r] have ih: "i + 1 \<le> index m" "index m - (i + 1) \<le> length cs"
      "matchAt opn close (drop (index m - (i + 1)) cs) = Some (group1 m)"
      "\<forall>j<index m - (i + 1). matchAt opn close (drop j cs) = None" by auto
    from ih(1) have e: "index m - i = Suc (index m - (i + 1))" by simp
    have "\<forall>j<index m - i. matchAt opn close (drop j (c # cs)) = None"
    proof (intro allI impI)
      fix j assume "j < index m - i"
      then show "matchAt opn close (drop j (c # cs)) = None"
        using None ih(4) e by (cases j) auto
    qed
    with ih e show ?thesis by simp
  next
    case (Some g)
    with 2(2) show ?thesis by auto
  qed
qed

lemma lazyUntil_complete:
  "\<forall>c\<in>set mid. \<not> isLineTerminator c \<Longrightarrow> lazyUntil close acc (mid @ close @ post) \<noteq> None"
proof (induction mid arbitrary: acc)
  case Nil
  have "startsWith (close @ post) close" by (simp add: startsWith_def)
  then show ?case by (cases "close @ post") auto
next
  case (Cons c mid)
  then show ?case by auto
qed

lemma matchAt_complete:
  assumes "g \<noteq> []" and "\<forall>c\<in>set g. \<not> isLineTerminator c"
  shows "matchAt opn close (opn @ g @ close @ post) \<noteq> None"
proof -
  from assms obtain c mid where g: "g = c # mid" "\<not> isLineTerminator c"
    "\<forall>c\<in>set mid. \<not> isLineTerminator c" by (cases g) auto
  from lazyUntil_complete [OF g(3), of close "[c]" post] g(1,2)
  show ?thesis by (simp add: matchAt_def startsWith_def)
qed

lemma search_leftmost_lazy:
  assumes "searchFrom opn close 0 s = Some m"
  shows "isLeftmostLazyMatch opn close s m"
proof -
  from searchFrom_sound [OF assms] have a: "index m \<le> length s"
    "matchAt opn close (drop (index m) s) = Some (group1 m)"
    "\<forall>j<index m. matchAt opn close (drop j s) = None" by auto
  from matchAt_sound [OF a(2)] obtain post where
    p: "drop (index m) s = opn @ group1 m @ close @ post" "group1 m \<noteq> []"
       "\<forall>c\<in>set (group1 m). \<not> isLineTerminator c"
       "\<forall>j. 0 < j \<and> j < length (group1 m) \<longrightarrow>
          \<not> startsWith (drop (length opn + j) (drop (index m) s)) close" by blast
  have w: "whole m = opn @ group1 m @ close" using assms by (rule searchFrom_whole)
  have "length (drop (index m) s) = length (opn @ group1 m @ close @ post)" using p(1) by simp
  then have len: "index m + length (whole m) \<le> length s" using w a(1) by simp
  have "slice s (index m) (index m + length (whole m)) = take (length (whole m)) (drop (index m) s)"
    by (simp add: slice_def drop_take)
  also have "\<dots> = whole m" using p(1) w by simp
  finally have sl: "slice s (index m) (index m + length (whole m)) = whole m" .
  have "\<forall>j. 0 < j \<and> j < length (group1 m) \<longrightarrow>
          \<not> startsWith (drop (index m + length opn + j) s) close"
    using p(4) by (simp add: add.commute add.left_commute)
  moreover have "\<forall>j<index m. \<not> (\<exists>g post. g \<noteq> [] \<and> (\<forall>c\<in>set g. \<not> isLineTerminator c) \<and>
                                drop j s = opn @ g @ close @ post)"
    using a(3) matchAt_complete [of _ opn close] by (metis option.distinct(1))
  ultimately show ?thesis
    using w p(2,3) len sl unfolding isLeftmostLazyMatch_def by blast
qed

lemma inlineLoop_empty: "inlineLoop [] parts = parts"
  by (subst inlineLoop.simps) simp

lemma inlineLoop_plain:
  "remaining \<noteq> [] \<Longrightarrow> matchesOf remaining = [] \<Longrightarrow>
   inlineLoop remaining parts = parts @ [Elem Span [Text remaining]]"
  by (subst inlineLoop.simps) simp

lemma inlineLoop_match:
  "remaining \<noteq> [] \<Longrightarrow> matchesOf remaining = (ty, m) # ms \<Longrightarrow>
   inlineLoop remaining parts =
     inlineLoop (sliceFrom remaining (index m + length (whole m)))
       (parts @ (if index m > 0 then [Elem Span [Text (slice remaining 0 (index m))]] else []) @
        [styled ty (group1 m)])"
  by (subst inlineLoop.simps) simp

lemma inlineLoop_acc: "inlineLoop remaining parts = parts @ inlineLoop remaining []"
proof (induction "length remaining" arbitrary: remaining parts rule: less_induct)
  case less
  show ?case
  proof (cases "remaining = []")
    case True
    then show ?thesis by (simp add: inlineLoop_empty)
  next
    case False
    show ?thesis
    proof (cases "matchesOf remaining")
      case Nil
      with False show ?thesis by (simp add: inlineLoop_plain)
    next
      case (Cons x ms)
      obtain ty m where x: "x = (ty, m)" by (cases x)
      let ?r = "sliceFrom remaining (index m + length (whole m))"
      let ?ps = "(if index m > 0 then [Elem Span [Text (slice remaining 0 (index m))]] else [])
                  @ [styled ty (group1 m)]"
      from Cons x have mo: "matchesOf remaining = (ty, m) # ms" by simp
      then have "0 < length (whole m)" by (rule matchesOf_whole)
      with False have l: "length ?r < length remaining" by (simp add: sliceFrom_def)
      have a: "inlineLoop remaining parts = inlineLoop ?r (parts @ ?ps)"
        using False mo by (rule inlineLoop_match)
      have b: "inlineLoop remaining [] = inlineLoop ?r ([] @ ?ps)"
        using False mo by (rule inlineLoop_match)
      have c: "inlineLoop ?r (parts @ ?ps) = (parts @ ?ps) @ inlineLoop ?r []"
        using l by (rule less)
      have d: "inlineLoop ?r ([] @ ?ps) = ([] @ ?ps) @ inlineLoop ?r []"
        using l by (rule less)
      from a b c d show ?thesis by simp
    qed
  qed
qed

lemma InlineMarkdown_empty: "InlineMarkdown [] = []"
  by (simp add: InlineMarkdown_def inlineLoop_empty)

lemma InlineMarkdown_plain:
  "str \<noteq> [] \<Longrightarrow> matchesOf str = [] \<Longrightarrow> InlineMarkdown str = [Elem Span [Text str]]"
  by (simp add: InlineMarkdown_def inlineLoop_plain)

lemma InlineMarkdown_match:
  assumes "matchesOf str = (ty, m) # ms"
  shows "InlineMarkdown str =
     (if index m > 0 then [Elem Span [Text (slice str 0 (index m))]] else []) @
     [styled ty (group1 m)] @
     InlineMarkdown (sliceFrom str (index m + length (whole m)))"
proof (cases "str = []")
  case True
  with assms have "(ty, m) \<in> set (matchesOf [])" by simp
  then have False
    by (auto simp: matchesOf_cases boldMatch_def italicMatch_def codeMatch_def matchAt_def
        startsWith_def js_def)
  then show ?thesis ..
next
  case False
  then show ?thesis
    unfolding InlineMarkdown_def
    using inlineLoop_match [OF False assms, of "[]"]
      inlineLoop_acc [of "sliceFrom str (index m + length (whole m))"
        "(if index m > 0 then [Elem Span [Text (slice str 0 (index m))]] else []) @
         [styled ty (group1 m)]"]
    by simp
qed

lemma isInlineNode_styled: "isInlineNode (styled ty g)"
  by (cases ty) (simp_all add: styled_def)

lemma InlineMarkdown_flat: "list_all isInlineNode (InlineMarkdown str)"
proof (induction "length str" arbitrary: str rule: less_induct)
  case less
  show ?case
  proof (cases "matchesOf str")
    case Nil
    then show ?thesis
      by (cases "str = []") (simp_all add: InlineMarkdown_empty InlineMarkdown_plain)
  next
    case (Cons x ms)
    obtain ty m where x: "x = (ty, m)" by (cases x)
    from Cons x have mo: "matchesOf str = (ty, m) # ms" by simp
    then have w: "0 < length (whole m)" by (rule matchesOf_whole)
    have "str \<noteq> []"
      using mo InlineMarkdown_match [OF mo] InlineMarkdown_empty by auto
    with w have "length (sliceFrom str (index m + length (whole m))) < length str"
      by (simp add: sliceFrom_def)
    then have "list_all isInlineNode (InlineMarkdown (sliceFrom str (index m + length (whole m))))"
      by (rule less)
    then show ?thesis
      by (simp add: InlineMarkdown_match [OF mo] isInlineNode_styled)
  qed
qed

lemma matchesOf_earliest:
  assumes "matchesOf str = (ty, m) # ms" and "(ty', m') \<in> set (matchesOf str)"
  shows "index m \<le> index m'"
proof -
  have "sorted (map (\<lambda>x. index (snd x)) (matchesOf str))"
    unfolding matchesOf_def by (rule sorted_sort_key)
  with assms show ?thesis by auto
qed

lemma matchesOf_tie:
  assumes "matchesOf str = (ty, m) # ms"
  shows "(\<forall>b. boldMatch str = Some b \<and> index b = index m \<longrightarrow> ty = bold) \<and>
         (\<forall>i. italicMatch str = Some i \<and> index i = index m \<longrightarrow> ty \<noteq> code)"
  using assms
  by (auto simp: matchesOf_def candidate_def split: option.splits if_splits)

lemma matchesOf_leftmost_lazy:
  assumes "matchesOf str = (ty, m) # ms"
  shows "isLeftmostLazyMatch (delimiterOf ty) (delimiterOf ty) str m"
proof -
  from assms have "(ty, m) \<in> set (matchesOf str)" by simp
  then show ?thesis
    by (auto simp: matchesOf_cases delimiterOf_def boldMatch_def italicMatch_def codeMatch_def
        intro: search_leftmost_lazy)
qed

text \<open>
  C5. Every node that \<open>InlineMarkdown\<close> emits is a \<open>span\<close>, \<open>strong\<close>, \<open>em\<close> or \<open>code\<close>
  element whose only child is a string: no inline element is ever inside another. A text
  without a match is one plain span. Otherwise the first entry of \<open>matches\<close> decides the
  step: the text before it becomes a plain span, its group becomes one styled element
  holding the group as it stands in the text, and the loop goes on behind the match. That
  entry is the leftmost match of its own pattern with the shortest group, and no match
  of the three patterns starts before it; of two that start together bold comes before
  italic and italic before code. So \<open>**a *b* c**\<close> is one bold span with the stars of
  \<open>*b*\<close> left in its text, and \<open>*a **b** c*\<close> is three italic spans.
\<close>

theorem InlineMarkdown_first_match_flat:
  "list_all isInlineNode (InlineMarkdown str) \<and>
   (str \<noteq> [] \<and> matchesOf str = [] \<longrightarrow> InlineMarkdown str = [Elem Span [Text str]]) \<and>
   (matchesOf str = (ty, m) # ms \<longrightarrow>
      InlineMarkdown str =
        (if index m > 0 then [Elem Span [Text (slice str 0 (index m))]] else []) @
        [styled ty (group1 m)] @
        InlineMarkdown (sliceFrom str (index m + length (whole m))) \<and>
      isLeftmostLazyMatch (delimiterOf ty) (delimiterOf ty) str m \<and>
      (\<forall>b. boldMatch str = Some b \<longrightarrow> index m \<le> index b \<and> (index b = index m \<longrightarrow> ty = bold)) \<and>
      (\<forall>i. italicMatch str = Some i \<longrightarrow>
            index m \<le> index i \<and> (index i = index m \<longrightarrow> ty \<noteq> code)) \<and>
      (\<forall>c. codeMatch str = Some c \<longrightarrow> index m \<le> index c)) \<and>
   InlineMarkdown (js ''**a *b* c**'') = [Elem Strong [Text (js ''a *b* c'')]] \<and>
   InlineMarkdown (js ''*a **b** c*'') =
     [Elem Em [Text (js ''a '')], Elem Em [Text (js ''b'')], Elem Em [Text (js '' c'')]]"
proof -
  have 1: "list_all isInlineNode (InlineMarkdown str)" by (rule InlineMarkdown_flat)
  have 2: "InlineMarkdown str = [Elem Span [Text str]]" if "str \<noteq> [] \<and> matchesOf str = []"
    using that by (simp add: InlineMarkdown_plain)
  have 3: "InlineMarkdown str =
        (if index m > 0 then [Elem Span [Text (slice str 0 (index m))]] else []) @
        [styled ty (group1 m)] @
        InlineMarkdown (sliceFrom str (index m + length (whole m))) \<and>
      isLeftmostLazyMatch (delimiterOf ty) (delimiterOf ty) str m \<and>
      (\<forall>b. boldMatch str = Some b \<longrightarrow> index m \<le> index b \<and> (index b = index m \<longrightarrow> ty = bold)) \<and>
      (\<forall>i. italicMatch str = Some i \<longrightarrow>
            index m \<le> index i \<and> (index i = index m \<longrightarrow> ty \<noteq> code)) \<and>
      (\<forall>c. codeMatch str = Some c \<longrightarrow> index m \<le> index c)"
    if mo: "matchesOf str = (ty, m) # ms"
  proof -
    have e: "index m \<le> index m'" if "(ty', m') \<in> set (matchesOf str)" for ty' m'
      using mo that by (rule matchesOf_earliest)
    have "index m \<le> index b" if "boldMatch str = Some b" for b
      using e [of bold b] that by (simp add: matchesOf_cases)
    moreover have "index m \<le> index i" if "italicMatch str = Some i" for i
      using e [of italic i] that by (simp add: matchesOf_cases)
    moreover have "index m \<le> index c" if "codeMatch str = Some c" for c
      using e [of code c] that by (simp add: matchesOf_cases)
    ultimately show ?thesis
      using InlineMarkdown_match [OF mo] matchesOf_leftmost_lazy [OF mo] matchesOf_tie [OF mo]
      by blast
  qed
  have 4: "InlineMarkdown (js ''**a *b* c**'') = [Elem Strong [Text (js ''a *b* c'')]]"
    by code_simp
  have 5: "InlineMarkdown (js ''*a **b** c*'') =
     [Elem Em [Text (js ''a '')], Elem Em [Text (js ''b'')], Elem Em [Text (js '' c'')]]"
    by code_simp
  from 1 2 3 4 5 show ?thesis by blast
qed

theorem InlineMarkdown_first_match_flat_witness:
  "js ''no stars'' \<noteq> [] \<and> matchesOf (js ''no stars'') = [] \<and>
   InlineMarkdown (js ''no stars'') = [Elem Span [Text (js ''no stars'')]] \<and>
   matchesOf (js ''x **y** `z`'') =
     [(bold, \<lparr>index = 2, whole = js ''**y**'', group1 = js ''y''\<rparr>),
      (italic, \<lparr>index = 2, whole = js ''**y*'', group1 = js ''*y''\<rparr>),
      (code, \<lparr>index = 8, whole = js ''`z`'', group1 = js ''z''\<rparr>)] \<and>
   InlineMarkdown (js ''x **y** `z`'') =
     [Elem Span [Text (js ''x '')], Elem Strong [Text (js ''y'')]] @
     InlineMarkdown (js '' `z`'') \<and>
   isLeftmostLazyMatch (js ''**'') (js ''**'') (js ''x **y** `z`'')
     \<lparr>index = 2, whole = js ''**y**'', group1 = js ''y''\<rparr> \<and>
   list_all isInlineNode (InlineMarkdown (js ''x **y** `z`''))"
proof -
  have a: "js ''no stars'' \<noteq> [] \<and> matchesOf (js ''no stars'') = []" by code_simp
  have b: "matchesOf (js ''x **y** `z`'') =
     (bold, \<lparr>index = 2, whole = js ''**y**'', group1 = js ''y''\<rparr>) #
     [(italic, \<lparr>index = 2, whole = js ''**y*'', group1 = js ''*y''\<rparr>),
      (code, \<lparr>index = 8, whole = js ''`z`'', group1 = js ''z''\<rparr>)]" by code_simp
  have c: "slice (js ''x **y** `z`'') 0 2 = js ''x '' \<and>
           sliceFrom (js ''x **y** `z`'') (2 + length (js ''**y**'')) = js '' `z`'' \<and>
           delimiterOf bold = js ''**'' \<and>
           styled bold (js ''y'') = Elem Strong [Text (js ''y'')]" by code_simp
  from InlineMarkdown_first_match_flat [where str = "js ''no stars''"] a
  have 1: "InlineMarkdown (js ''no stars'') = [Elem Span [Text (js ''no stars'')]]" by blast
  note t = InlineMarkdown_first_match_flat [where str = "js ''x **y** `z`''" and ty = bold
      and m = "\<lparr>index = 2, whole = js ''**y**'', group1 = js ''y''\<rparr>"
      and ms = "[(italic, \<lparr>index = 2, whole = js ''**y*'', group1 = js ''*y''\<rparr>),
        (code, \<lparr>index = 8, whole = js ''`z`'', group1 = js ''z''\<rparr>)]"]
  from t have 2: "list_all isInlineNode (InlineMarkdown (js ''x **y** `z`''))" by blast
  from t b have "InlineMarkdown (js ''x **y** `z`'') =
      (if index \<lparr>index = 2, whole = js ''**y**'', group1 = js ''y''\<rparr> > 0
       then [Elem Span [Text (slice (js ''x **y** `z`'') 0
               (index \<lparr>index = 2, whole = js ''**y**'', group1 = js ''y''\<rparr>))]]
       else []) @
      [styled bold (group1 \<lparr>index = 2, whole = js ''**y**'', group1 = js ''y''\<rparr>)] @
      InlineMarkdown (sliceFrom (js ''x **y** `z`'')
        (index \<lparr>index = 2, whole = js ''**y**'', group1 = js ''y''\<rparr> +
         length (whole \<lparr>index = 2, whole = js ''**y**'', group1 = js ''y''\<rparr>)))"
    by blast
  with c have 3: "InlineMarkdown (js ''x **y** `z`'') =
     [Elem Span [Text (js ''x '')], Elem Strong [Text (js ''y'')]] @
     InlineMarkdown (js '' `z`'')" by simp
  from t b have "isLeftmostLazyMatch (delimiterOf bold) (delimiterOf bold) (js ''x **y** `z`'')
     \<lparr>index = 2, whole = js ''**y**'', group1 = js ''y''\<rparr>" by blast
  with c have 4: "isLeftmostLazyMatch (js ''**'') (js ''**'') (js ''x **y** `z`'')
     \<lparr>index = 2, whole = js ''**y**'', group1 = js ''y''\<rparr>" by simp
  from a b 1 2 3 4 show ?thesis by blast
qed

subsection \<open>The block parser and the AI blocks\<close>

lemma renderLines_Nil: "renderLines [] wrapAi = []"
  by (simp add: renderLines_def flushList_def)

lemma flushNormal_eq:
  "flushNormal st = st\<lparr>elements := elements st @ renderLines (normalBuffer st) False,
                        normalBuffer := []\<rparr>"
  by (simp add: flushNormal_def renderLines_Nil)

lemma flushAi_eq:
  "flushAi st = st\<lparr>elements := elements st @ renderLines (aiBuffer st) True, aiBuffer := []\<rparr>"
  by (simp add: flushAi_def renderLines_Nil)

lemma previewLine_open:
  "trim line = js '':::ai'' \<Longrightarrow>
   previewLine st line =
     \<lparr>inAiBlock = True, normalBuffer = [], aiBuffer = [],
      elements = elements st @ renderLines (normalBuffer st) False @
                 renderLines (aiBuffer st) True\<rparr>"
  by (simp add: previewLine_def flushNormal_eq flushAi_eq)

lemma delimiters_differ: "js '':::'' \<noteq> js '':::ai''"
  by (simp add: js_def)

lemma previewLine_close:
  "trim line = js '':::'' \<Longrightarrow>
   previewLine st line =
     \<lparr>inAiBlock = False, normalBuffer = normalBuffer st, aiBuffer = [],
      elements = elements st @ renderLines (aiBuffer st) True\<rparr>"
  by (simp add: previewLine_def flushAi_eq delimiters_differ)

lemma previewLine_other:
  "trim line \<noteq> js '':::ai'' \<Longrightarrow> trim line \<noteq> js '':::'' \<Longrightarrow>
   previewLine st line =
     (if inAiBlock st then st\<lparr>aiBuffer := aiBuffer st @ [line]\<rparr>
      else st\<lparr>normalBuffer := normalBuffer st @ [line]\<rparr>)"
  by (simp add: previewLine_def)

lemma pushElement_Elem: "pushElement wrapAi (Elem t cs) els =
    els @ [if wrapAi then aiWrap (Elem t cs) else Elem t cs]"
  by (simp add: pushElement_def aiWrap_def)

lemma flushList_wrap: "flushList True (wrapState st) = wrapState (flushList False st)"
  by (cases st) (auto simp: flushList_def wrapState_def listNode_def pushElement_Elem
      split: option.splits)

lemma addItem_wrap: "addItem True ty item (wrapState st) = wrapState (addItem False ty item st)"
  using flushList_wrap [of st]
  by (cases st) (auto simp: addItem_def wrapState_def split: option.splits)

lemma blockNode_Elem: "blockNode trimmed = Some n \<Longrightarrow> \<exists>t cs. n = Elem t cs"
  by (auto simp: blockNode_def split: if_splits)

lemma renderLine_wrap: "renderLine True (wrapState st) line = wrapState (renderLine False st line)"
proof -
  have "(case blockNode trimmed of None \<Rightarrow> wrapState s
         | Some n \<Rightarrow> (fst (wrapState s), pushElement True n (snd (wrapState s)))) =
        wrapState (case blockNode trimmed of None \<Rightarrow> s
         | Some n \<Rightarrow> (fst s, pushElement False n (snd s)))" for trimmed s
    by (auto simp: wrapState_def pushElement_Elem split: option.splits dest!: blockNode_Elem)
  then show ?thesis
    by (simp add: renderLine_def Let_def addItem_wrap flushList_wrap split: option.splits)
qed

lemma foldl_renderLine_wrap:
  "foldl (renderLine True) (wrapState st) ls = wrapState (foldl (renderLine False) st ls)"
  by (induction ls arbitrary: st) (simp_all add: renderLine_wrap)

lemma renderLines_wrap: "renderLines ls True = map aiWrap (renderLines ls False)"
proof -
  have "foldl (renderLine True) (None, []) ls =
             wrapState (foldl (renderLine False) (None, []) ls)"
    using foldl_renderLine_wrap [of "(None, [])" ls] by (simp add: wrapState_def)
  then show ?thesis
    by (simp add: renderLines_def flushList_wrap) (simp add: wrapState_def)
qed

lemma renderLine_item:
  "lineItem line = Some (ty, item) \<Longrightarrow> renderLine wrapAi st line = addItem wrapAi ty item st"
  by (auto simp: lineItem_def renderLine_def Let_def split: if_splits option.splits)

lemma renderLine_other:
  "lineItem line = None \<Longrightarrow>
   renderLine wrapAi st line =
     (None, (case blockNode (trim line) of None \<Rightarrow> snd (flushList wrapAi st)
             | Some n \<Rightarrow> pushElement wrapAi n (snd (flushList wrapAi st))))"
  by (cases st) (auto simp: lineItem_def renderLine_def Let_def flushList_def
      split: if_splits option.splits)

lemma renderLine_same_kind:
  "fst st = Some (ty, items) \<Longrightarrow> lineItem line = Some (ty, item) \<Longrightarrow>
   renderLine wrapAi st line = (Some (ty, items @ [item]), snd st)"
  by (simp add: renderLine_item addItem_def)

lemma renderLine_kind_change:
  "fst st = Some (ty', items) \<Longrightarrow> lineItem line = Some (ty, item) \<Longrightarrow> ty' \<noteq> ty \<Longrightarrow>
   renderLine wrapAi st line =
     (Some (ty, [item]), pushElement wrapAi (listNode ty' items) (snd st))"
  by (simp add: renderLine_item addItem_def flushList_def)

lemma renderLine_first_item:
  "fst st = None \<Longrightarrow> lineItem line = Some (ty, item) \<Longrightarrow>
   renderLine wrapAi st line = (Some (ty, [item]), snd st)"
  by (simp add: renderLine_item addItem_def flushList_def)

lemma foldl_same_kind:
  "map lineItem ls = map (\<lambda>i. Some (ty, i)) items \<Longrightarrow>
   foldl (renderLine wrapAi) (Some (ty, acc), els) ls = (Some (ty, acc @ items), els)"
proof (induction ls arbitrary: items acc)
  case Nil
  then show ?case by simp
next
  case (Cons l ls)
  then obtain i rest where i: "items = i # rest" "lineItem l = Some (ty, i)"
    "map lineItem ls = map (\<lambda>i. Some (ty, i)) rest" by (cases items) auto
  have "renderLine wrapAi (Some (ty, acc), els) l = (Some (ty, acc @ [i]), els)"
    using i(2) by (simp add: renderLine_same_kind)
  with Cons.IH [OF i(3)] i(1) show ?case by simp
qed

lemma renderLines_one_run:
  assumes "map lineItem ls = map (\<lambda>i. Some (ty, i)) items" and "items \<noteq> []"
  shows "renderLines ls wrapAi = pushElement wrapAi (listNode ty items) []"
proof -
  from assms obtain l ls' i rest where s: "ls = l # ls'" "items = i # rest"
    "lineItem l = Some (ty, i)" "map lineItem ls' = map (\<lambda>i. Some (ty, i)) rest"
    by (cases ls; cases items) auto
  have "renderLine wrapAi (None, []) l = (Some (ty, [i]), [])"
    using s(3) by (simp add: renderLine_first_item)
  then have "foldl (renderLine wrapAi) (None, []) ls = (Some (ty, [i] @ rest), [])"
    using s(1) foldl_same_kind [OF s(4)] by simp
  then show ?thesis using s(2) by (simp add: renderLines_def flushList_def)
qed

lemma renderLines_two_runs:
  assumes "map lineItem lsA = map (\<lambda>i. Some (tyA, i)) itemsA" and "itemsA \<noteq> []"
    and "map lineItem lsB = map (\<lambda>i. Some (tyB, i)) itemsB" and "itemsB \<noteq> []"
    and "tyA \<noteq> tyB"
  shows "renderLines (lsA @ lsB) wrapAi =
     pushElement wrapAi (listNode tyB itemsB) (pushElement wrapAi (listNode tyA itemsA) [])"
proof -
  from assms(1,2) obtain l ls' i rest where s: "lsA = l # ls'" "itemsA = i # rest"
    "lineItem l = Some (tyA, i)" "map lineItem ls' = map (\<lambda>i. Some (tyA, i)) rest"
    by (cases lsA; cases itemsA) auto
  from assms(3,4) obtain k ks' j rest2 where t: "lsB = k # ks'" "itemsB = j # rest2"
    "lineItem k = Some (tyB, j)" "map lineItem ks' = map (\<lambda>i. Some (tyB, i)) rest2"
    by (cases lsB; cases itemsB) auto
  have "renderLine wrapAi (None, []) l = (Some (tyA, [i]), [])"
    using s(3) by (simp add: renderLine_first_item)
  then have 1: "foldl (renderLine wrapAi) (None, []) lsA = (Some (tyA, itemsA), [])"
    using s(1,2) foldl_same_kind [OF s(4)] by simp
  have "renderLine wrapAi (Some (tyA, itemsA), []) k =
        (Some (tyB, [j]), pushElement wrapAi (listNode tyA itemsA) [])"
    using t(3) assms(5) by (simp add: renderLine_kind_change)
  then have 2: "foldl (renderLine wrapAi) (Some (tyA, itemsA), []) lsB =
        (Some (tyB, itemsB), pushElement wrapAi (listNode tyA itemsA) [])"
    using t(1,2) foldl_same_kind [OF t(4)] by simp
  from 1 2 show ?thesis by (simp add: renderLines_def flushList_def)
qed

lemma preview_buffers:
  "(let st = foldl previewLine previewStart ls in
      (inAiBlock st \<longrightarrow> normalBuffer st = []) \<and> (\<not> inAiBlock st \<longrightarrow> aiBuffer st = []))"
proof (induction ls rule: rev_induct)
  case Nil
  then show ?case by (simp add: previewStart_def)
next
  case (snoc l ls)
  then show ?case
    by (auto simp: previewLine_def Let_def flushNormal_eq flushAi_eq)
qed

text \<open>
  C4. \<open>MarkdownPreview\<close> splits the note into lines and runs over them with the flag
  \<open>inAiBlock\<close> and the two buffers, flushing what is left at the end. A line whose
  trimmed form is \<open>:::ai\<close> sends the buffered plain lines through \<open>renderLines\<close> (and any
  lines still buffered from an AI block that was not closed, wrapped), empties both
  buffers and sets the flag. A line whose trimmed form is \<open>:::\<close> sends the buffered AI
  lines through \<open>renderLines\<close>, each node that comes out inside a highlighted \<open>div\<close> of
  its own, and clears the flag. Neither line is put into a buffer, so neither yields a
  node. Every other line goes to the end of the buffer that the flag selects. In a state
  that the loop reaches, the buffer that the flag does not select is empty.
\<close>

theorem MarkdownPreview_delimiter_lines:
  "previewElements noteText =
     elements (flushAi (flushNormal (foldl previewLine previewStart (splitLines noteText)))) \<and>
   (trim line = js '':::ai'' \<longrightarrow>
      previewLine st line =
        \<lparr>inAiBlock = True, normalBuffer = [], aiBuffer = [],
         elements = elements st @ renderLines (normalBuffer st) False @
                    map aiWrap (renderLines (aiBuffer st) False)\<rparr>) \<and>
   (trim line = js '':::'' \<longrightarrow>
      previewLine st line =
        \<lparr>inAiBlock = False, normalBuffer = normalBuffer st, aiBuffer = [],
         elements = elements st @ map aiWrap (renderLines (aiBuffer st) False)\<rparr>) \<and>
   (trim line \<noteq> js '':::ai'' \<and> trim line \<noteq> js '':::'' \<longrightarrow>
      previewLine st line =
        (if inAiBlock st then st\<lparr>aiBuffer := aiBuffer st @ [line]\<rparr>
         else st\<lparr>normalBuffer := normalBuffer st @ [line]\<rparr>)) \<and>
   renderLines ls True = map aiWrap (renderLines ls False) \<and>
   (inAiBlock (foldl previewLine previewStart ls) \<longrightarrow>
      normalBuffer (foldl previewLine previewStart ls) = []) \<and>
   (\<not> inAiBlock (foldl previewLine previewStart ls) \<longrightarrow>
      aiBuffer (foldl previewLine previewStart ls) = [])"
proof -
  have 1: "previewElements noteText =
     elements (flushAi (flushNormal (foldl previewLine previewStart (splitLines noteText))))"
    by (simp add: previewElements_def)
  have 2: "previewLine st line =
        \<lparr>inAiBlock = True, normalBuffer = [], aiBuffer = [],
         elements = elements st @ renderLines (normalBuffer st) False @
                    map aiWrap (renderLines (aiBuffer st) False)\<rparr>"
    if "trim line = js '':::ai''"
    using previewLine_open [OF that, of st] by (simp add: renderLines_wrap)
  have 3: "previewLine st line =
        \<lparr>inAiBlock = False, normalBuffer = normalBuffer st, aiBuffer = [],
         elements = elements st @ map aiWrap (renderLines (aiBuffer st) False)\<rparr>"
    if "trim line = js '':::''"
    using previewLine_close [OF that, of st] by (simp add: renderLines_wrap)
  have 4: "previewLine st line =
        (if inAiBlock st then st\<lparr>aiBuffer := aiBuffer st @ [line]\<rparr>
         else st\<lparr>normalBuffer := normalBuffer st @ [line]\<rparr>)"
    if "trim line \<noteq> js '':::ai'' \<and> trim line \<noteq> js '':::''"
    using that by (simp add: previewLine_other)
  have 5: "renderLines ls True = map aiWrap (renderLines ls False)"
    by (rule renderLines_wrap)
  from preview_buffers [of ls]
  have 6: "(inAiBlock (foldl previewLine previewStart ls) \<longrightarrow>
      normalBuffer (foldl previewLine previewStart ls) = []) \<and>
   (\<not> inAiBlock (foldl previewLine previewStart ls) \<longrightarrow>
      aiBuffer (foldl previewLine previewStart ls) = [])"
    by (simp add: Let_def)
  from 1 2 3 4 5 6 show ?thesis by blast
qed

theorem MarkdownPreview_delimiter_lines_witness:
  "trim (js '' :::ai '') = js '':::ai'' \<and>
   previewLine (foldl previewLine previewStart [js ''a'']) (js '' :::ai '') =
     \<lparr>inAiBlock = True, normalBuffer = [], aiBuffer = [],
      elements = [Elem Para [Elem Span [Text (js ''a'')]]]\<rparr> \<and>
   trim (js '':::'') = js '':::'' \<and>
   previewLine (foldl previewLine previewStart [js ''a'', js '':::ai'', js ''- b'']) (js '':::'') =
     \<lparr>inAiBlock = False, normalBuffer = [], aiBuffer = [],
      elements = [Elem Para [Elem Span [Text (js ''a'')]],
                  Elem DivAi [Elem Ul [Elem Li [Elem Span [Text (js ''b'')]]]]]\<rparr> \<and>
   trim (js ''- b'') \<noteq> js '':::ai'' \<and> trim (js ''- b'') \<noteq> js '':::'' \<and>
   previewLine (foldl previewLine previewStart [js ''a'', js '':::ai'']) (js ''- b'') =
     \<lparr>inAiBlock = True, normalBuffer = [], aiBuffer = [js ''- b''],
      elements = [Elem Para [Elem Span [Text (js ''a'')]]]\<rparr> \<and>
   inAiBlock (foldl previewLine previewStart [js ''a'', js '':::ai'']) \<and>
   normalBuffer (foldl previewLine previewStart [js ''a'', js '':::ai'']) = [] \<and>
   \<not> inAiBlock (foldl previewLine previewStart [js ''a'']) \<and>
   aiBuffer (foldl previewLine previewStart [js ''a'']) = [] \<and>
   previewElements (js ''a\<newline>:::ai\<newline>- b\<newline>:::\<newline>c'') =
     [Elem Para [Elem Span [Text (js ''a'')]],
      Elem DivAi [Elem Ul [Elem Li [Elem Span [Text (js ''b'')]]]],
      Elem Para [Elem Span [Text (js ''c'')]]]"
proof -
  let ?s1 = "foldl previewLine previewStart [js ''a'']"
  let ?s2 = "foldl previewLine previewStart [js ''a'', js '':::ai'']"
  let ?s3 = "foldl previewLine previewStart [js ''a'', js '':::ai'', js ''- b'']"
  have a: "trim (js '' :::ai '') = js '':::ai''" by code_simp
  have b: "trim (js '':::'') = js '':::''" by code_simp
  have c: "trim (js ''- b'') \<noteq> js '':::ai'' \<and> trim (js ''- b'') \<noteq> js '':::''" by code_simp
  have d: "inAiBlock ?s2" by code_simp
  have e: "\<not> inAiBlock ?s1" by code_simp
  have s1: "?s1 = \<lparr>inAiBlock = False, normalBuffer = [js ''a''], aiBuffer = [], elements = []\<rparr>"
    by code_simp
  have s2: "?s2 = \<lparr>inAiBlock = True, normalBuffer = [], aiBuffer = [],
                  elements = [Elem Para [Elem Span [Text (js ''a'')]]]\<rparr>"
    by code_simp
  have s3: "?s3 = \<lparr>inAiBlock = True, normalBuffer = [], aiBuffer = [js ''- b''],
                  elements = [Elem Para [Elem Span [Text (js ''a'')]]]\<rparr>"
    by code_simp
  have r1: "renderLines [js ''a''] False = [Elem Para [Elem Span [Text (js ''a'')]]]" by code_simp
  have r2: "map aiWrap (renderLines [js ''- b''] False) =
            [Elem DivAi [Elem Ul [Elem Li [Elem Span [Text (js ''b'')]]]]]" by code_simp
  have r0: "renderLines [] False = []" by code_simp
  have p: "previewElements (js ''a\<newline>:::ai\<newline>- b\<newline>:::\<newline>c'') =
     [Elem Para [Elem Span [Text (js ''a'')]],
      Elem DivAi [Elem Ul [Elem Li [Elem Span [Text (js ''b'')]]]],
      Elem Para [Elem Span [Text (js ''c'')]]]" by code_simp
  from MarkdownPreview_delimiter_lines [where line = "js '' :::ai ''" and st = ?s1] a
  have 1: "previewLine ?s1 (js '' :::ai '') =
     \<lparr>inAiBlock = True, normalBuffer = [], aiBuffer = [],
      elements = [Elem Para [Elem Span [Text (js ''a'')]]]\<rparr>"
    unfolding s1 by (simp add: r1 r0)
  from MarkdownPreview_delimiter_lines [where line = "js '':::''" and st = ?s3] b
  have 2: "previewLine ?s3 (js '':::'') =
     \<lparr>inAiBlock = False, normalBuffer = [], aiBuffer = [],
      elements = [Elem Para [Elem Span [Text (js ''a'')]],
                  Elem DivAi [Elem Ul [Elem Li [Elem Span [Text (js ''b'')]]]]]\<rparr>"
    unfolding s3 by (simp add: r2)
  from MarkdownPreview_delimiter_lines [where line = "js ''- b''" and st = ?s2] c
  have 3: "previewLine ?s2 (js ''- b'') =
     \<lparr>inAiBlock = True, normalBuffer = [], aiBuffer = [js ''- b''],
      elements = [Elem Para [Elem Span [Text (js ''a'')]]]\<rparr>"
    unfolding s2 by simp
  from MarkdownPreview_delimiter_lines [where ls = "[js ''a'', js '':::ai'']"] d
  have 4: "normalBuffer ?s2 = []" by blast
  from MarkdownPreview_delimiter_lines [where ls = "[js ''a'']"] e
  have 5: "aiBuffer ?s1 = []" by blast
  from a b c d e 1 2 3 4 5 p show ?thesis by blast
qed

text \<open>
  C6. In \<open>renderLines\<close> a list item of the type of the open list is added to it and
  nothing is pushed; a list item of the other type pushes the open list as one node and
  opens a new list; a line that is no list item pushes the open list and leaves none
  open. So a run of items of one type is exactly one list node with all its items, and
  a run of one type followed by a run of the other is exactly two. The lines \<open>- a\<close>,
  \<open>- b\<close>, \<open>1. c\<close> give one bullet list with the items \<open>a\<close> and \<open>b\<close> followed by one numbered
  list with the item \<open>c\<close>.
\<close>

theorem renderLines_list_coalescing:
  "renderLines [js ''- a'', js ''- b'', js ''1. c''] False =
     [Elem Ul [Elem Li [Elem Span [Text (js ''a'')]], Elem Li [Elem Span [Text (js ''b'')]]],
      Elem Ol [Elem Li [Elem Span [Text (js ''c'')]]]] \<and>
   (fst st = Some (ty, items) \<and> lineItem line = Some (ty, item) \<longrightarrow>
      renderLine wrapAi st line = (Some (ty, items @ [item]), snd st)) \<and>
   (fst st = Some (ty', items) \<and> lineItem line = Some (ty, item) \<and> ty' \<noteq> ty \<longrightarrow>
      renderLine wrapAi st line =
        (Some (ty, [item]), pushElement wrapAi (listNode ty' items) (snd st))) \<and>
   (fst st = Some (ty', items) \<and> lineItem line = None \<longrightarrow>
      fst (renderLine wrapAi st line) = None \<and>
      take (Suc (length (snd st))) (snd (renderLine wrapAi st line)) =
        pushElement wrapAi (listNode ty' items) (snd st)) \<and>
   (map lineItem ls = map (\<lambda>i. Some (ty, i)) items \<and> items \<noteq> [] \<longrightarrow>
      renderLines ls wrapAi = pushElement wrapAi (listNode ty items) []) \<and>
   (map lineItem lsA = map (\<lambda>i. Some (tyA, i)) itemsA \<and> itemsA \<noteq> [] \<and>
    map lineItem lsB = map (\<lambda>i. Some (tyB, i)) itemsB \<and> itemsB \<noteq> [] \<and> tyA \<noteq> tyB \<longrightarrow>
      renderLines (lsA @ lsB) wrapAi =
        pushElement wrapAi (listNode tyB itemsB) (pushElement wrapAi (listNode tyA itemsA) []))"
proof -
  have 1: "renderLines [js ''- a'', js ''- b'', js ''1. c''] False =
     [Elem Ul [Elem Li [Elem Span [Text (js ''a'')]], Elem Li [Elem Span [Text (js ''b'')]]],
      Elem Ol [Elem Li [Elem Span [Text (js ''c'')]]]]"
    by code_simp
  have 2: "renderLine wrapAi st line = (Some (ty, items @ [item]), snd st)"
    if "fst st = Some (ty, items) \<and> lineItem line = Some (ty, item)"
    using that by (simp add: renderLine_same_kind)
  have 3: "renderLine wrapAi st line =
        (Some (ty, [item]), pushElement wrapAi (listNode ty' items) (snd st))"
    if "fst st = Some (ty', items) \<and> lineItem line = Some (ty, item) \<and> ty' \<noteq> ty"
    using that by (simp add: renderLine_kind_change)
  have 4: "fst (renderLine wrapAi st line) = None \<and>
      take (Suc (length (snd st))) (snd (renderLine wrapAi st line)) =
        pushElement wrapAi (listNode ty' items) (snd st)"
    if "fst st = Some (ty', items) \<and> lineItem line = None"
  proof -
    from that have f: "snd (flushList wrapAi st) = pushElement wrapAi (listNode ty' items) (snd st)"
      by (simp add: flushList_def)
    have l: "length (pushElement wrapAi (listNode ty' items) (snd st)) = Suc (length (snd st))"
      by (simp add: listNode_def pushElement_Elem)
    show ?thesis
      using that f l
      by (auto simp: renderLine_other pushElement_Elem split: option.splits
          dest!: blockNode_Elem)
  qed
  have 5: "renderLines ls wrapAi = pushElement wrapAi (listNode ty items) []"
    if "map lineItem ls = map (\<lambda>i. Some (ty, i)) items \<and> items \<noteq> []"
    using that by (simp add: renderLines_one_run)
  have 6: "renderLines (lsA @ lsB) wrapAi =
        pushElement wrapAi (listNode tyB itemsB) (pushElement wrapAi (listNode tyA itemsA) [])"
    if "map lineItem lsA = map (\<lambda>i. Some (tyA, i)) itemsA \<and> itemsA \<noteq> [] \<and>
        map lineItem lsB = map (\<lambda>i. Some (tyB, i)) itemsB \<and> itemsB \<noteq> [] \<and> tyA \<noteq> tyB"
    using that by (simp add: renderLines_two_runs)
  from 1 2 3 4 5 6 show ?thesis by blast
qed

theorem renderLines_list_coalescing_witness:
  "lineItem (js ''- b'') = Some (bullet_list, js ''b'') \<and>
   renderLine False (Some (bullet_list, [js ''a'']), []) (js ''- b'') =
     (Some (bullet_list, [js ''a'', js ''b'']), []) \<and>
   lineItem (js ''1. c'') = Some (numbered_list, js ''c'') \<and>
   renderLine False (Some (bullet_list, [js ''a'', js ''b'']), []) (js ''1. c'') =
     (Some (numbered_list, [js ''c'']),
      [Elem Ul [Elem Li [Elem Span [Text (js ''a'')]], Elem Li [Elem Span [Text (js ''b'')]]]]) \<and>
   lineItem (js ''text'') = None \<and>
   fst (renderLine False (Some (bullet_list, [js ''a'']), []) (js ''text'')) = None \<and>
   take 1 (snd (renderLine False (Some (bullet_list, [js ''a'']), []) (js ''text''))) =
     [Elem Ul [Elem Li [Elem Span [Text (js ''a'')]]]] \<and>
   renderLines [js ''- a'', js ''* b''] True =
     [Elem DivAi
        [Elem Ul [Elem Li [Elem Span [Text (js ''a'')]], Elem Li [Elem Span [Text (js ''b'')]]]]] \<and>
   renderLines ([js ''- a'', js ''- b''] @ [js ''1. c'']) False =
     [Elem Ul [Elem Li [Elem Span [Text (js ''a'')]], Elem Li [Elem Span [Text (js ''b'')]]],
      Elem Ol [Elem Li [Elem Span [Text (js ''c'')]]]]"
proof -
  have a: "lineItem (js ''- b'') = Some (bullet_list, js ''b'')" by code_simp
  have b: "lineItem (js ''1. c'') = Some (numbered_list, js ''c'')" by code_simp
  have c: "lineItem (js ''text'') = None" by code_simp
  have d: "map lineItem [js ''- a'', js ''* b''] =
           map (\<lambda>i. Some (bullet_list, i)) [js ''a'', js ''b'']" by code_simp
  have e: "map lineItem [js ''- a'', js ''- b''] =
           map (\<lambda>i. Some (bullet_list, i)) [js ''a'', js ''b'']" by code_simp
  have f: "map lineItem [js ''1. c''] = map (\<lambda>i. Some (numbered_list, i)) [js ''c'']"
    by code_simp
  have n1: "listNode bullet_list [js ''a'', js ''b''] =
     Elem Ul [Elem Li [Elem Span [Text (js ''a'')]], Elem Li [Elem Span [Text (js ''b'')]]]"
    by code_simp
  have n2: "listNode numbered_list [js ''c''] = Elem Ol [Elem Li [Elem Span [Text (js ''c'')]]]"
    by code_simp
  have n3: "listNode bullet_list [js ''a''] = Elem Ul [Elem Li [Elem Span [Text (js ''a'')]]]"
    by code_simp
  note t = renderLines_list_coalescing
  from t [where st = "(Some (bullet_list, [js ''a'']), [])" and ty = bullet_list
        and items = "[js ''a'']" and line = "js ''- b''" and item = "js ''b''"
        and wrapAi = False] a
  have 1: "renderLine False (Some (bullet_list, [js ''a'']), []) (js ''- b'') =
     (Some (bullet_list, [js ''a'', js ''b'']), [])" by simp
  from t [where st = "(Some (bullet_list, [js ''a'', js ''b'']), [])" and ty = numbered_list
        and line = "js ''1. c''" and item = "js ''c''" and wrapAi = False
        and ty' = bullet_list and items = "[js ''a'', js ''b'']"] b
  have 2: "renderLine False (Some (bullet_list, [js ''a'', js ''b'']), []) (js ''1. c'') =
     (Some (numbered_list, [js ''c'']),
      [Elem Ul [Elem Li [Elem Span [Text (js ''a'')]], Elem Li [Elem Span [Text (js ''b'')]]]])"
    by (simp add: n1 pushElement_Elem)
  from t [where st = "(Some (bullet_list, [js ''a'']), [])" and line = "js ''text''"
        and wrapAi = False and ty' = bullet_list and items = "[js ''a'']"] c
  have 3: "fst (renderLine False (Some (bullet_list, [js ''a'']), []) (js ''text'')) = None \<and>
   take 1 (snd (renderLine False (Some (bullet_list, [js ''a'']), []) (js ''text''))) =
     [Elem Ul [Elem Li [Elem Span [Text (js ''a'')]]]]"
    by (simp add: n3 pushElement_Elem)
  from t [where ty = bullet_list and items = "[js ''a'', js ''b'']" and wrapAi = True
        and ls = "[js ''- a'', js ''* b'']"] d
  have 4: "renderLines [js ''- a'', js ''* b''] True =
     [Elem DivAi
        [Elem Ul [Elem Li [Elem Span [Text (js ''a'')]], Elem Li [Elem Span [Text (js ''b'')]]]]]"
    by (simp add: n1 pushElement_Elem aiWrap_def)
  from t [where wrapAi = False and lsA = "[js ''- a'', js ''- b'']" and tyA = bullet_list
        and itemsA = "[js ''a'', js ''b'']" and lsB = "[js ''1. c'']" and tyB = numbered_list
        and itemsB = "[js ''c'']"] e f
  have 5: "renderLines ([js ''- a'', js ''- b''] @ [js ''1. c'']) False =
     [Elem Ul [Elem Li [Elem Span [Text (js ''a'')]], Elem Li [Elem Span [Text (js ''b'')]]],
      Elem Ol [Elem Li [Elem Span [Text (js ''c'')]]]]"
    by (simp add: n1 n2 pushElement_Elem)
  from a b c 1 2 3 4 5 show ?thesis by blast
qed

section \<open>Properties of the note state\<close>

lemma typing_pending:
  "\<forall>(gap, c)\<in>set calls. gap < 800 \<Longrightarrow>
   saveTimeout st = Some (now st + 800, first, note_id st) \<Longrightarrow> content st = first \<Longrightarrow>
   (let st' = noteRun st (typing ok calls); final = last (first # map snd calls) in
      saveTimeout st' = Some (now st' + 800, final, note_id st) \<and> content st' = final \<and>
      note_id st' = note_id st \<and> lastSavedContent st' = lastSavedContent st \<and>
      saveCalls st' = saveCalls st \<and> writes st' = writes st)"
proof (induction calls arbitrary: st first)
  case Nil
  then show ?case by (simp add: noteRun_def)
next
  case (Cons a calls)
  obtain gap c where a: "a = (gap, c)" by (cases a)
  let ?st1 = "updateContent c (wait ok gap st)"
  from Cons.prems a have g: "gap < 800" by simp
  with Cons.prems(2) have w: "wait ok gap st = st\<lparr>now := now st + gap\<rparr>"
    by (simp add: wait_def)
  have 1: "saveTimeout ?st1 = Some (now ?st1 + 800, c, note_id ?st1)" "content ?st1 = c"
    "note_id ?st1 = note_id st" "lastSavedContent ?st1 = lastSavedContent st"
    "saveCalls ?st1 = saveCalls st" "writes ?st1 = writes st"
    by (simp_all add: w updateContent_def)
  from Cons.prems(1) have "\<forall>(gap, c)\<in>set calls. gap < 800" by simp
  from Cons.IH [OF this 1(1,2)] 1(3-) a show ?case
    by (simp add: noteRun_def Let_def)
qed

lemma noteRun_append: "noteRun st (xs @ ys) = noteRun (noteRun st xs) ys"
  by (simp add: noteRun_def)

lemma debounce_burst:
  assumes "\<forall>(gap, c)\<in>set calls. gap < 800" and "800 \<le> d"
  shows "(let st' = noteRun st ((okFirst, UpdateContent first) # typing okTyping calls @ [(ok, Wait d)]);
              final = last (first # map snd calls) in
            content st' = final \<and> saveCalls st' = saveCalls st @ [final] \<and>
            saveTimeout st' = None \<and>
            writes st' = writes st @
              (case note_id st of
                 None \<Rightarrow> []
               | Some nid \<Rightarrow>
                   if nid = [] \<or> final = lastSavedContent st then [] else [(nid, final)]))"
proof -
  let ?st1 = "updateContent first st"
  let ?st2 = "noteRun ?st1 (typing okTyping calls)"
  let ?final = "last (first # map snd calls)"
  have 1: "saveTimeout ?st1 = Some (now ?st1 + 800, first, note_id ?st1)" "content ?st1 = first"
    by (simp_all add: updateContent_def)
  from typing_pending [OF assms(1) 1, of okTyping]
  have 2: "saveTimeout ?st2 = Some (now ?st2 + 800, ?final, note_id st)" "content ?st2 = ?final"
    "note_id ?st2 = note_id st" "lastSavedContent ?st2 = lastSavedContent st"
    "saveCalls ?st2 = saveCalls st" "writes ?st2 = writes st"
    by (simp_all add: Let_def updateContent_def)
  have r: "noteRun st ((okFirst, UpdateContent first) # typing okTyping calls @ [(ok, Wait d)]) =
           wait ok d ?st2"
    by (simp add: noteRun_def)
  show ?thesis
    unfolding r Let_def using 2 assms(2)
    by (auto simp: wait_def saveNote_def Let_def split: option.splits)
qed

lemma no_note_no_write_step:
  assumes "note_id st = None"
    and "case saveTimeout st of None \<Rightarrow> True | Some (due, c, nid) \<Rightarrow> nid = None"
  shows "note_id (noteStep st ev) = None \<and>
         (case saveTimeout (noteStep st ev) of None \<Rightarrow> True | Some (due, c, nid) \<Rightarrow> nid = None) \<and>
         writes (noteStep st ev) = writes st \<and>
         lastSavedContent (noteStep st ev) = lastSavedContent st"
proof -
  obtain ok e where ev: "ev = (ok, e)" by (cases ev)
  show ?thesis
    using assms unfolding ev
    by (cases e)
       (auto simp: updateContent_def appendToNote_def setNoteContent_def forceSave_def wait_def
          saveNote_def Let_def split: option.splits)
qed

lemma no_note_no_write_run:
  assumes "note_id st = None"
    and "case saveTimeout st of None \<Rightarrow> True | Some (due, c, nid) \<Rightarrow> nid = None"
  shows "writes (noteRun st evs) = writes st \<and>
         lastSavedContent (noteRun st evs) = lastSavedContent st"
  using assms
proof (induction evs arbitrary: st)
  case Nil
  then show ?case by (simp add: noteRun_def)
next
  case (Cons ev evs)
  from no_note_no_write_step [OF Cons.prems, of ev] Cons.IH [of "noteStep st ev"]
  show ?case by (simp add: noteRun_def)
qed

text \<open>
  C7. \<open>updateContent\<close> sets the content in memory at once, saves nothing itself, and
  replaces whatever timer was pending by one that is due 800 ms later. Hence, for a
  first call followed by any number of calls that each come less than 800 ms after the
  one before, and then 800 ms or more without a call: \<open>saveNote\<close> has been called
  exactly once, with the content of the last call, which is also the content in memory;
  no timer is left; and at most one update request has been sent, with that content (it
  is sent when a note is loaded and the content differs from the last one saved).
\<close>

theorem updateContent_debounce:
  "content (updateContent newContent st) = newContent \<and>
   saveTimeout (updateContent newContent st) = Some (now st + 800, newContent, note_id st) \<and>
   saveCalls (updateContent newContent st) = saveCalls st \<and>
   writes (updateContent newContent st) = writes st \<and>
   ((\<forall>(gap, c)\<in>set calls. gap < 800) \<and> 800 \<le> d \<longrightarrow>
      (let st' = noteRun st ((okFirst, UpdateContent first) # typing okTyping calls @ [(ok, Wait d)]);
           final = last (first # map snd calls) in
         content st' = final \<and> saveCalls st' = saveCalls st @ [final] \<and>
         saveTimeout st' = None \<and>
         writes st' = writes st @
           (case note_id st of
              None \<Rightarrow> []
            | Some nid \<Rightarrow>
                if nid = [] \<or> final = lastSavedContent st then [] else [(nid, final)])))"
  using debounce_burst [of calls d st okFirst first okTyping ok]
  by (simp add: updateContent_def)

theorem updateContent_debounce_witness:
  "content (noteRun
      \<lparr>note_id = Some (js ''n1''), content = js ''old'', lastSavedContent = js ''old'',
       saveTimeout = None, now = 0, saveCalls = [], writes = []\<rparr>
      ((True, UpdateContent (js ''a'')) #
       typing True [(100, js ''ab''), (799, js ''abc'')] @ [(True, Wait 800)])) = js ''abc'' \<and>
   saveCalls (noteRun
      \<lparr>note_id = Some (js ''n1''), content = js ''old'', lastSavedContent = js ''old'',
       saveTimeout = None, now = 0, saveCalls = [], writes = []\<rparr>
      ((True, UpdateContent (js ''a'')) #
       typing True [(100, js ''ab''), (799, js ''abc'')] @ [(True, Wait 800)])) = [js ''abc''] \<and>
   writes (noteRun
      \<lparr>note_id = Some (js ''n1''), content = js ''old'', lastSavedContent = js ''old'',
       saveTimeout = None, now = 0, saveCalls = [], writes = []\<rparr>
      ((True, UpdateContent (js ''a'')) #
       typing True [(100, js ''ab''), (799, js ''abc'')] @ [(True, Wait 800)])) =
     [(js ''n1'', js ''abc'')]"
proof -
  have h: "(\<forall>(gap, c)\<in>set [(100, js ''ab''), (799, js ''abc'')]. gap < (800::nat)) \<and>
           (800::nat) \<le> 800" by simp
  have n: "js ''n1'' \<noteq> [] \<and> js ''abc'' \<noteq> js ''old''" by (simp add: js_def)
  from updateContent_debounce [where calls = "[(100, js ''ab''), (799, js ''abc'')]"
      and d = 800 and first = "js ''a''" and okFirst = True and okTyping = True and ok = True
      and st = "\<lparr>note_id = Some (js ''n1''), content = js ''old'',
                  lastSavedContent = js ''old'', saveTimeout = None, now = 0, saveCalls = [],
                  writes = []\<rparr>"] h n
  show ?thesis by (simp add: Let_def)
qed

text \<open>
  C10. While no note record is loaded (\<open>note\<close> is \<open>null\<close>), no path sends an update
  request: \<open>appendToNote\<close>, \<open>setNoteContent\<close> and \<open>forceSave\<close> change at most the
  content in memory, and the save that \<open>updateContent\<close> schedules sends nothing when its
  timer runs. The log of requests and \<open>lastSavedContent\<close> stay as they were, over any
  sequence of calls and waits, when the timer pending at the start, if there is one, was
  also made while no note was loaded.
\<close>

theorem no_note_no_write:
  "(note_id st = None \<longrightarrow>
      writes (appendToNote ok added st) = writes st \<and>
      lastSavedContent (appendToNote ok added st) = lastSavedContent st \<and>
      content (appendToNote ok added st) =
        (if content st \<noteq> [] then content st @ [NL, NL] @ added else added) \<and>
      writes (setNoteContent ok newContent st) = writes st \<and>
      lastSavedContent (setNoteContent ok newContent st) = lastSavedContent st \<and>
      content (setNoteContent ok newContent st) = newContent \<and>
      writes (forceSave ok st) = writes st \<and>
      lastSavedContent (forceSave ok st) = lastSavedContent st \<and>
      content (forceSave ok st) = content st \<and>
      writes (wait ok d (updateContent newContent st)) = writes st \<and>
      lastSavedContent (wait ok d (updateContent newContent st)) = lastSavedContent st \<and>
      content (wait ok d (updateContent newContent st)) = newContent) \<and>
   (note_id st = None \<and>
    (case saveTimeout st of None \<Rightarrow> True | Some (due, c, nid) \<Rightarrow> nid = None) \<longrightarrow>
      writes (noteRun st evs) = writes st \<and>
      lastSavedContent (noteRun st evs) = lastSavedContent st)"
proof -
  have 1: "writes (appendToNote ok added st) = writes st \<and>
      lastSavedContent (appendToNote ok added st) = lastSavedContent st \<and>
      content (appendToNote ok added st) =
        (if content st \<noteq> [] then content st @ [NL, NL] @ added else added)"
    if "note_id st = None"
    using that by (simp add: appendToNote_def saveNote_def Let_def)
  have 2: "writes (setNoteContent ok newContent st) = writes st \<and>
      lastSavedContent (setNoteContent ok newContent st) = lastSavedContent st \<and>
      content (setNoteContent ok newContent st) = newContent"
    if "note_id st = None"
    using that by (simp add: setNoteContent_def saveNote_def Let_def)
  have 3: "writes (forceSave ok st) = writes st \<and>
      lastSavedContent (forceSave ok st) = lastSavedContent st \<and>
      content (forceSave ok st) = content st"
    if "note_id st = None"
    using that by (simp add: forceSave_def saveNote_def Let_def)
  have 4: "writes (wait ok d (updateContent newContent st)) = writes st \<and>
      lastSavedContent (wait ok d (updateContent newContent st)) = lastSavedContent st \<and>
      content (wait ok d (updateContent newContent st)) = newContent"
    if "note_id st = None"
    using that by (simp add: wait_def updateContent_def saveNote_def Let_def)
  have 5: "writes (noteRun st evs) = writes st \<and>
      lastSavedContent (noteRun st evs) = lastSavedContent st"
    if "note_id st = None \<and>
        (case saveTimeout st of None \<Rightarrow> True | Some (due, c, nid) \<Rightarrow> nid = None)"
    using that no_note_no_write_run [of st evs] by blast
  from 1 2 3 4 5 show ?thesis by blast
qed

theorem no_note_no_write_witness:
  "note_id \<lparr>note_id = None, content = js ''old'', lastSavedContent = js '''',
            saveTimeout = None, now = 0, saveCalls = [], writes = []\<rparr> = None \<and>
   writes (appendToNote True (js ''x'')
      \<lparr>note_id = None, content = js ''old'', lastSavedContent = js '''',
       saveTimeout = None, now = 0, saveCalls = [], writes = []\<rparr>) = [] \<and>
   content (appendToNote True (js ''x'')
      \<lparr>note_id = None, content = js ''old'', lastSavedContent = js '''',
       saveTimeout = None, now = 0, saveCalls = [], writes = []\<rparr>) = js ''old\<newline>\<newline>x'' \<and>
   writes (setNoteContent True (js ''y'')
      \<lparr>note_id = None, content = js ''old'', lastSavedContent = js '''',
       saveTimeout = None, now = 0, saveCalls = [], writes = []\<rparr>) = [] \<and>
   writes (forceSave True
      \<lparr>note_id = None, content = js ''old'', lastSavedContent = js '''',
       saveTimeout = None, now = 0, saveCalls = [], writes = []\<rparr>) = [] \<and>
   writes (wait True 800 (updateContent (js ''z'')
      \<lparr>note_id = None, content = js ''old'', lastSavedContent = js '''',
       saveTimeout = None, now = 0, saveCalls = [], writes = []\<rparr>)) = [] \<and>
   writes (noteRun
      \<lparr>note_id = None, content = js ''old'', lastSavedContent = js '''',
       saveTimeout = None, now = 0, saveCalls = [], writes = []\<rparr>
      [(True, UpdateContent (js ''a'')), (True, Wait 800), (True, AppendToNote (js ''x'')),
       (True, SetNoteContent (js ''y'')), (True, UpdateContent (js ''b'')),
       (True, ForceSave)]) = [] \<and>
   lastSavedContent (noteRun
      \<lparr>note_id = None, content = js ''old'', lastSavedContent = js '''',
       saveTimeout = None, now = 0, saveCalls = [], writes = []\<rparr>
      [(True, UpdateContent (js ''a'')), (True, Wait 800), (True, AppendToNote (js ''x'')),
       (True, SetNoteContent (js ''y'')), (True, UpdateContent (js ''b'')),
       (True, ForceSave)]) = js ''''"
proof -
  let ?st = "\<lparr>note_id = None, content = js ''old'', lastSavedContent = js '''',
              saveTimeout = None, now = 0, saveCalls = [], writes = []\<rparr>"
  have h: "note_id ?st = None \<and>
           (case saveTimeout ?st of None \<Rightarrow> True | Some (due, c, nid) \<Rightarrow> nid = None)"
    by simp
  have c: "js ''old'' \<noteq> [] \<and> js ''old'' @ [NL, NL] @ js ''x'' = js ''old\<newline>\<newline>x''"
    by (simp add: js_def NL_def)
  note t = no_note_no_write [where st = ?st and ok = True]
  from t [where added = "js ''x''"] h c
  have 1: "writes (appendToNote True (js ''x'') ?st) = [] \<and>
           content (appendToNote True (js ''x'') ?st) = js ''old\<newline>\<newline>x''" by simp
  from t [where newContent = "js ''y''"] h
  have 2: "writes (setNoteContent True (js ''y'') ?st) = []" by simp
  from t h have 3: "writes (forceSave True ?st) = []" by simp
  from t [where newContent = "js ''z''" and d = 800] h
  have 4: "writes (wait True 800 (updateContent (js ''z'') ?st)) = []" by simp
  from t [where evs = "[(True, UpdateContent (js ''a'')), (True, Wait 800),
       (True, AppendToNote (js ''x'')), (True, SetNoteContent (js ''y'')),
       (True, UpdateContent (js ''b'')), (True, ForceSave)]"] h
  have 5: "writes (noteRun ?st [(True, UpdateContent (js ''a'')), (True, Wait 800),
       (True, AppendToNote (js ''x'')), (True, SetNoteContent (js ''y'')),
       (True, UpdateContent (js ''b'')), (True, ForceSave)]) = [] \<and>
     lastSavedContent (noteRun ?st [(True, UpdateContent (js ''a'')), (True, Wait 800),
       (True, AppendToNote (js ''x'')), (True, SetNoteContent (js ''y'')),
       (True, UpdateContent (js ''b'')), (True, ForceSave)]) = js ''''" by simp
  from h 1 2 3 4 5 show ?thesis by simp
qed

section \<open>Properties of the chat\<close>

lemma appendUnlessPresent_present:
  "msg_id msg \<in> msg_id ` set prev \<Longrightarrow> appendUnlessPresent msg prev = prev"
  by (auto simp: appendUnlessPresent_def list_ex_iff)

lemma appendUnlessPresent_absent:
  "msg_id msg \<notin> msg_id ` set prev \<Longrightarrow> appendUnlessPresent msg prev = prev @ [msg]"
  by (auto simp: appendUnlessPresent_def list_ex_iff image_iff)

lemma appendUnlessPresent_distinct:
  "distinct (map msg_id prev) \<Longrightarrow> distinct (map msg_id (appendUnlessPresent msg prev))"
  by (auto simp: appendUnlessPresent_def list_ex_iff)

lemma appendUnlessPresent_twice:
  "appendUnlessPresent msg (appendUnlessPresent msg prev) = appendUnlessPresent msg prev"
  by (auto simp: appendUnlessPresent_def list_ex_iff)

text \<open>
  C8 (as amended). The three paths that add a turn which the database returned (the
  user's turn on send, the assistant's reply when its save succeeded, a realtime insert)
  all run the same updater: it leaves the history as it is when a turn of that id is
  there, and appends the turn otherwise. So adding one turn twice gives a history of
  length 1, and these paths never bring a second turn of an id into a history whose ids
  differ. An assistant's reply that could not be saved is appended under an id made from
  the clock, with no look at the history.
\<close>

theorem history_dedup_saved_turns:
  "onRealtimeInsert msg prev = appendUnlessPresent msg prev \<and>
   addUserMessage (Some msg) prev = appendUnlessPresent msg prev \<and>
   addUserMessage None prev = prev \<and>
   addAssistantMessage (Some msg) dateNow isoNow reply prev = appendUnlessPresent msg prev \<and>
   addAssistantMessage None dateNow isoNow reply prev = prev @ [tempMessage dateNow isoNow reply] \<and>
   (msg_id msg \<in> msg_id ` set prev \<longrightarrow> appendUnlessPresent msg prev = prev) \<and>
   (msg_id msg \<notin> msg_id ` set prev \<longrightarrow> appendUnlessPresent msg prev = prev @ [msg]) \<and>
   (msg_id msg' = msg_id msg \<longrightarrow>
      length (appendUnlessPresent msg' (appendUnlessPresent msg [])) = 1) \<and>
   (distinct (map msg_id prev) \<longrightarrow> distinct (map msg_id (appendUnlessPresent msg prev)))"
proof -
  have "length (appendUnlessPresent msg' (appendUnlessPresent msg [])) = 1"
    if "msg_id msg' = msg_id msg"
    using that by (simp add: appendUnlessPresent_def)
  then show ?thesis
    by (simp add: onRealtimeInsert_def addUserMessage_def addAssistantMessage_def
        appendUnlessPresent_present appendUnlessPresent_absent appendUnlessPresent_distinct)
qed

theorem history_dedup_saved_turns_witness:
  "msg_id \<lparr>msg_id = js ''m1'', msg_role = assistant, msg_content = js ''hi'',
           msg_created_at = js ''t2''\<rparr>
     \<in> msg_id ` set [\<lparr>msg_id = js ''m1'', msg_role = assistant, msg_content = js ''hi'',
                       msg_created_at = js ''t1''\<rparr>] \<and>
   appendUnlessPresent
     \<lparr>msg_id = js ''m1'', msg_role = assistant, msg_content = js ''hi'',
      msg_created_at = js ''t2''\<rparr>
     [\<lparr>msg_id = js ''m1'', msg_role = assistant, msg_content = js ''hi'',
       msg_created_at = js ''t1''\<rparr>] =
     [\<lparr>msg_id = js ''m1'', msg_role = assistant, msg_content = js ''hi'',
       msg_created_at = js ''t1''\<rparr>] \<and>
   msg_id \<lparr>msg_id = js ''m2'', msg_role = user, msg_content = js ''q'',
           msg_created_at = js ''t3''\<rparr>
     \<notin> msg_id ` set [\<lparr>msg_id = js ''m1'', msg_role = assistant, msg_content = js ''hi'',
                       msg_created_at = js ''t1''\<rparr>] \<and>
   appendUnlessPresent
     \<lparr>msg_id = js ''m2'', msg_role = user, msg_content = js ''q'', msg_created_at = js ''t3''\<rparr>
     [\<lparr>msg_id = js ''m1'', msg_role = assistant, msg_content = js ''hi'',
       msg_created_at = js ''t1''\<rparr>] =
     [\<lparr>msg_id = js ''m1'', msg_role = assistant, msg_content = js ''hi'',
       msg_created_at = js ''t1''\<rparr>,
      \<lparr>msg_id = js ''m2'', msg_role = user, msg_content = js ''q'',
       msg_created_at = js ''t3''\<rparr>] \<and>
   length (appendUnlessPresent
     \<lparr>msg_id = js ''m1'', msg_role = assistant, msg_content = js ''hi'',
      msg_created_at = js ''t2''\<rparr>
     (appendUnlessPresent
       \<lparr>msg_id = js ''m1'', msg_role = assistant, msg_content = js ''hi'',
        msg_created_at = js ''t1''\<rparr> [])) = 1 \<and>
   distinct (map msg_id
     (appendUnlessPresent
       \<lparr>msg_id = js ''m1'', msg_role = assistant, msg_content = js ''hi'',
        msg_created_at = js ''t2''\<rparr>
       [\<lparr>msg_id = js ''m1'', msg_role = assistant, msg_content = js ''hi'',
         msg_created_at = js ''t1''\<rparr>]))"
proof -
  let ?a = "\<lparr>msg_id = js ''m1'', msg_role = assistant, msg_content = js ''hi'',
             msg_created_at = js ''t1''\<rparr>"
  let ?b = "\<lparr>msg_id = js ''m1'', msg_role = assistant, msg_content = js ''hi'',
             msg_created_at = js ''t2''\<rparr>"
  let ?c = "\<lparr>msg_id = js ''m2'', msg_role = user, msg_content = js ''q'',
             msg_created_at = js ''t3''\<rparr>"
  have h1: "msg_id ?b \<in> msg_id ` set [?a]" by simp
  have h2: "msg_id ?c \<notin> msg_id ` set [?a]" by (simp add: js_def)
  have h3: "msg_id ?b = msg_id ?a" by simp
  have h4: "distinct (map msg_id [?a])" by simp
  from history_dedup_saved_turns [where msg = ?b and prev = "[?a]"] h1
  have 1: "appendUnlessPresent ?b [?a] = [?a]" by blast
  from history_dedup_saved_turns [where msg = ?c and prev = "[?a]"] h2
  have 2: "appendUnlessPresent ?c [?a] = [?a, ?c]" by simp
  from history_dedup_saved_turns [where msg = ?a and msg' = ?b] h3
  have 3: "length (appendUnlessPresent ?b (appendUnlessPresent ?a [])) = 1" by blast
  from history_dedup_saved_turns [where msg = ?b and prev = "[?a]"] h4
  have 4: "distinct (map msg_id (appendUnlessPresent ?b [?a]))" by blast
  from h1 h2 1 2 3 4 show ?thesis by blast
qed

text \<open>
  C8 as the specification words it does not hold of the code: two replies that could
  not be saved and fall into the same millisecond are both appended, and the history
  then holds two turns of one id.
\<close>

theorem history_duplicate_id_counterexample:
  "length (addAssistantMessage None 1730534400123 (js ''2024-11-02T08:00:00.123Z'')
             (js ''second'')
             (addAssistantMessage None 1730534400123 (js ''2024-11-02T08:00:00.123Z'')
                (js ''first'') [])) = 2 \<and>
   \<not> distinct (map msg_id
        (addAssistantMessage None 1730534400123 (js ''2024-11-02T08:00:00.123Z'')
           (js ''second'')
           (addAssistantMessage None 1730534400123 (js ''2024-11-02T08:00:00.123Z'')
              (js ''first'') [])))"
  by (simp add: addAssistantMessage_def tempMessage_def)

lemma handleSummarizeCommand_fetches:
  "contextEntities entities selectedEntityIds \<noteq> [] \<Longrightarrow>
   hd (handleSummarizeCommand entities selectedEntityIds outcome userQuery) =
     FetchSummarize (map payloadEntity (contextEntities entities selectedEntityIds))"
  by (simp add: handleSummarizeCommand_def Let_def)

text \<open>
  C9. When no entity is left after the selection is applied and the entities of type
  \<open>ai-summary\<close> are taken out, \<open>handleSummarizeCommand\<close> does one thing only, whatever
  the summarize endpoint would have answered: it adds the assistant turn
  \<open>There's nothing to summarize yet. Upload some screenshots first!\<close>. No request goes
  to the summarize endpoint and no summary entity is inserted. This is so in particular
  for an empty list of entities.
\<close>

theorem handleSummarizeCommand_nothing_to_summarize:
  "(contextEntities entities selectedEntityIds = [] \<longrightarrow>
      handleSummarizeCommand entities selectedEntityIds outcome userQuery =
        [AddAssistantMessage
           (js ''There's nothing to summarize yet. Upload some screenshots first!'')] \<and>
      (\<forall>p. FetchSummarize p \<notin>
         set (handleSummarizeCommand entities selectedEntityIds outcome userQuery)) \<and>
      (\<forall>d. InsertSummary d \<notin>
         set (handleSummarizeCommand entities selectedEntityIds outcome userQuery))) \<and>
   handleSummarizeCommand [] selectedEntityIds outcome userQuery =
     [AddAssistantMessage
        (js ''There's nothing to summarize yet. Upload some screenshots first!'')]"
  by (simp add: handleSummarizeCommand_def contextEntities_def)

theorem handleSummarizeCommand_nothing_to_summarize_witness:
  "contextEntities
     [\<lparr>ent_id = js ''e1'', entity_type = Some (js ''ai-summary''), ent_data = ()\<rparr>,
      \<lparr>ent_id = js ''e2'', entity_type = Some (js ''hotel''), ent_data = ()\<rparr>]
     {js ''e1''} = [] \<and>
   handleSummarizeCommand
     [\<lparr>ent_id = js ''e1'', entity_type = Some (js ''ai-summary''), ent_data = ()\<rparr>,
      \<lparr>ent_id = js ''e2'', entity_type = Some (js ''hotel''), ent_data = ()\<rparr>]
     {js ''e1''}
     (ResponseOk \<lparr>condensedSummary = js ''S'', suggestedTitle = js ''T'',
                  keyHighlights = None, recommendations = None\<rparr>)
     (js ''summarize'') =
     [AddAssistantMessage
        (js ''There's nothing to summarize yet. Upload some screenshots first!'')]"
proof -
  have h: "contextEntities
     [\<lparr>ent_id = js ''e1'', entity_type = Some (js ''ai-summary''), ent_data = ()\<rparr>,
      \<lparr>ent_id = js ''e2'', entity_type = Some (js ''hotel''), ent_data = ()\<rparr>]
     {js ''e1''} = []"
    by (simp add: contextEntities_def js_def)
  from handleSummarizeCommand_nothing_to_summarize [where entities =
      "[\<lparr>ent_id = js ''e1'', entity_type = Some (js ''ai-summary''), ent_data = ()\<rparr>,
        \<lparr>ent_id = js ''e2'', entity_type = Some (js ''hotel''), ent_data = ()\<rparr>]"
      and selectedEntityIds = "{js ''e1''}"
      and outcome = "ResponseOk \<lparr>condensedSummary = js ''S'', suggestedTitle = js ''T'',
                  keyHighlights = None, recommendations = None\<rparr>"
      and userQuery = "js ''summarize''"] h
  show ?thesis by blast
qed

end
